theory Spec2Isabelle
  imports Main "HOL-Library.Sublist"
begin

section \<open>Values of the Python program\<close>

text \<open>
  The script \<^verbatim>\<open>scripts/backfill-workspace-events.py\<close> handles events as the
  dictionaries that \<^verbatim>\<open>response.json()\<close> returns. A JSON value is modelled as it is
  in Python after parsing: an object is a dictionary in insertion order (an association
  list; lookups take the first binding of a key), a number is an integer (JSON numbers
  with a fraction only ever travel through the program as opaque values and are not
  part of the model).
\<close>

datatype json =
    JNull
  | JBool bool
  | JNum int
  | JStr string
  | JArr "json list"
  | JObj "(string \<times> json) list"

text \<open>The exceptions the script can meet. All of them are subclasses of \<^verbatim>\<open>Exception\<close>.\<close>

datatype py_error =
    KeyError
  | TypeError
  | ValueError
  | AttributeError
  | RequestException
  | JSONDecodeError
  | DatabaseError

text \<open>Sequencing of a computation that may raise: the first exception wins.\<close>

definition try_bind :: "py_error + 'a \<Rightarrow> ('a \<Rightarrow> py_error + 'b) \<Rightarrow> py_error + 'b" where
  "try_bind m f = (case m of Inl e \<Rightarrow> Inl e | Inr v \<Rightarrow> f v)"

text \<open>\<^verbatim>\<open>v[k]\<close> with a string key \<open>k\<close>: only a dictionary supports it.\<close>

fun subscript :: "json \<Rightarrow> string \<Rightarrow> py_error + json" where
  "subscript (JObj kvs) k = (case map_of kvs k of None \<Rightarrow> Inl KeyError | Some v \<Rightarrow> Inr v)"
| "subscript _ k = Inl TypeError"

text \<open>\<^verbatim>\<open>d.get(k)\<close>: \<^verbatim>\<open>None\<close> for a missing key; only a dictionary has the method.\<close>

fun dict_get :: "json \<Rightarrow> string \<Rightarrow> py_error + json" where
  "dict_get (JObj kvs) k = (case map_of kvs k of None \<Rightarrow> Inr JNull | Some v \<Rightarrow> Inr v)"
| "dict_get _ k = Inl AttributeError"

text \<open>
  The dictionary \<^verbatim>\<open>payload\<close> that \<^verbatim>\<open>insert_event\<close> builds can get keys that are not
  strings (from \<^verbatim>\<open>payload.update\<close>, below), so it is a list of bindings from hashable
  values, in insertion order. As keys, \<^verbatim>\<open>True\<close> and \<^verbatim>\<open>1\<close> are equal, and so are
  \<^verbatim>\<open>False\<close> and \<^verbatim>\<open>0\<close>.
\<close>

fun key_norm :: "json \<Rightarrow> json" where
  "key_norm (JBool b) = JNum (if b then 1 else 0)"
| "key_norm k = k"

fun hashable :: "json \<Rightarrow> bool" where
  "hashable (JArr xs) = False"
| "hashable (JObj kvs) = False"
| "hashable k = True"

text \<open>\<^verbatim>\<open>d[k] = v\<close>: a key that is present keeps its place and its first spelling.\<close>

fun dict_set :: "(json \<times> json) list \<Rightarrow> json \<Rightarrow> json \<Rightarrow> (json \<times> json) list" where
  "dict_set [] k v = [(k, v)]"
| "dict_set ((k', v') # kvs) k v =
     (if key_norm k' = key_norm k then (k', v) # kvs else (k', v') # dict_set kvs k v)"

text \<open>
  \<^verbatim>\<open>d.update(other)\<close>. A dictionary gives its bindings. Any other iterable must yield
  pairs: a list of two values, a string of two characters, a dictionary of two keys; a
  list yields its elements and a string its characters. The first element that is no pair
  (\<^verbatim>\<open>TypeError\<close> if it cannot be iterated, \<^verbatim>\<open>ValueError\<close> if its length is not 2)
  or whose key cannot be hashed ends the update with the exception.
\<close>

fun pair_of :: "json \<Rightarrow> py_error + (json \<times> json)" where
  "pair_of (JArr [k, v]) = Inr (k, v)"
| "pair_of (JArr xs) = Inl ValueError"
| "pair_of (JStr [a, b]) = Inr (JStr [a], JStr [b])"
| "pair_of (JStr cs) = Inl ValueError"
| "pair_of (JObj [(a, x), (b, y)]) = Inr (JStr a, JStr b)"
| "pair_of (JObj kvs) = Inl ValueError"
| "pair_of x = Inl TypeError"

fun update_pairs :: "(json \<times> json) list \<Rightarrow> json list \<Rightarrow> py_error + (json \<times> json) list" where
  "update_pairs d [] = Inr d"
| "update_pairs d (x # xs) =
     (case pair_of x of
        Inl err \<Rightarrow> Inl err
      | Inr (k, v) \<Rightarrow> if hashable k then update_pairs (dict_set d k v) xs else Inl TypeError)"

fun dict_update :: "(json \<times> json) list \<Rightarrow> json \<Rightarrow> py_error + (json \<times> json) list" where
  "dict_update d (JObj kvs) = Inr (foldl (\<lambda>acc (k, v). dict_set acc (JStr k) v) d kvs)"
| "dict_update d (JArr xs) = update_pairs d xs"
| "dict_update d (JStr cs) = update_pairs d (map (\<lambda>c. JStr [c]) cs)"
| "dict_update d x = Inl TypeError"

text \<open>
  \<^verbatim>\<open>json.dumps\<close> of that dictionary: a key that is no string is written as the text
  of its value. The serialisation is kept as the object with these keys, in order.
\<close>

fun nat_text :: "nat \<Rightarrow> string" where
  "nat_text n =
     (if n < 10 then [char_of (48 + n)]
      else nat_text (n div 10) @ [char_of (48 + n mod 10)])"

declare nat_text.simps [simp del]

definition int_text :: "int \<Rightarrow> string" where
  "int_text i = (if i < 0 then CHR ''-'' # nat_text (nat (- i)) else nat_text (nat i))"

fun key_text :: "json \<Rightarrow> string" where
  "key_text (JStr s) = s"
| "key_text JNull = ''null''"
| "key_text (JBool b) = (if b then ''true'' else ''false'')"
| "key_text (JNum n) = int_text n"
| "key_text k = []"

definition dumps_dict :: "(json \<times> json) list \<Rightarrow> json" where
  "dumps_dict d = JObj (map (\<lambda>kv. (key_text (fst kv), snd kv)) d)"

text \<open>Truth value of a JSON value, as \<^verbatim>\<open>not page_events\<close> tests it.\<close>

fun truthy :: "json \<Rightarrow> bool" where
  "truthy JNull = False"
| "truthy (JBool b) = b"
| "truthy (JNum n) = (n \<noteq> 0)"
| "truthy (JStr s) = (s \<noteq> [])"
| "truthy (JArr xs) = (xs \<noteq> [])"
| "truthy (JObj kvs) = (kvs \<noteq> [])"

text \<open>
  \<^verbatim>\<open>for event in page_events\<close>: a list yields its elements, a dictionary its keys, a
  string its characters; nothing else is iterable.
\<close>

fun iter_json :: "json \<Rightarrow> py_error + json list" where
  "iter_json (JArr xs) = Inr xs"
| "iter_json (JObj kvs) = Inr (map (\<lambda>kv. JStr (fst kv)) kvs)"
| "iter_json (JStr s) = Inr (map (\<lambda>c. JStr [c]) s)"
| "iter_json _ = Inl TypeError"

text \<open>\<^verbatim>\<open>s.split(sep, 1)\<close> for a one-character separator: split at the first one only.\<close>

definition split1 :: "char \<Rightarrow> string \<Rightarrow> string list" where
  "split1 sep s =
     (if sep \<in> set s
      then [takeWhile (\<lambda>c. c \<noteq> sep) s, tl (dropWhile (\<lambda>c. c \<noteq> sep) s)]
      else [s])"

text \<open>\<^verbatim>\<open>a, b = xs\<close>: exactly two values, else \<^verbatim>\<open>ValueError\<close>.\<close>

fun unpack2 :: "'a list \<Rightarrow> py_error + ('a \<times> 'a)" where
  "unpack2 [a, b] = Inr (a, b)"
| "unpack2 _ = Inl ValueError"

text \<open>\<^verbatim>\<open>s.replace("Z", "+00:00")\<close>.\<close>

definition replace_Z :: "string \<Rightarrow> string" where
  "replace_Z s = concat (map (\<lambda>c. if c = CHR ''Z'' then ''+00:00'' else [c]) s)"

section \<open>The cache table\<close>

text \<open>
  A row of \<^verbatim>\<open>github_events_cache\<close>, with the columns the script's statement names.
  The values are the ones the script passes; \<open>payload\<close> stands for its serialisation
  \<^verbatim>\<open>json.dumps(payload)\<close>. The table is a list of rows.
\<close>

record cache_row =
  event_id :: json
  event_type :: json
  actor_login :: json
  repository_owner :: string
  repository_name :: string
  payload :: json
  created_at :: json
  processed_at :: "int option"
  processing_notes :: "string option"

text \<open>\<^verbatim>\<open>COALESCE(processing_notes, '')\<close>.\<close>

definition coalesce :: "string option \<Rightarrow> string" where
  "coalesce n = (case n of None \<Rightarrow> [] | Some s \<Rightarrow> s)"

definition update_marker :: string where
  "update_marker = ''; Updated from workspace backfill''"

text \<open>The \<^verbatim>\<open>DO UPDATE SET\<close> clause, applied to the row in conflict at time \<open>now\<close>.\<close>

definition on_conflict_update :: "int \<Rightarrow> cache_row \<Rightarrow> cache_row" where
  "on_conflict_update now r =
     r\<lparr>processed_at := Some now,
       processing_notes := Some (coalesce (processing_notes r) @ update_marker)\<rparr>"

section \<open>The world outside the script\<close>

text \<open>
  A \<^verbatim>\<open>datetime\<close> is an instant in microseconds since the epoch, with or without a
  time zone; comparing one of each raises \<^verbatim>\<open>TypeError\<close>.
\<close>

datatype datetime = Aware int | Naive int

text \<open>
  What \<^verbatim>\<open>requests.get\<close> does: it raises, or it returns a response, of which the
  script reads the status, the header \<^verbatim>\<open>X-RateLimit-Reset\<close> (if present) and the body
  (\<open>None\<close>: \<^verbatim>\<open>response.json()\<close> raises).
\<close>

datatype http_result =
    Raises py_error
  | Response (status_code: int) (rate_limit_reset: "string option") (body: "json option")

record repository =
  owner :: string
  name :: string
  workspace :: string

text \<open>
  Everything the script takes from outside is a field of the environment: the event feed
  (its answer to a request for a page of a repository with a page size; it may depend on
  how many requests were made before), the library functions
  \<^verbatim>\<open>datetime.fromisoformat\<close>, \<^verbatim>\<open>isoformat\<close> and \<^verbatim>\<open>int\<close> on strings, the database
  (which of its calls raise, what the directory query returns, the rows already in the
  table, the time \<^verbatim>\<open>NOW()\<close> has in each of its calls, the default of the column
  \<^verbatim>\<open>processed_at\<close> at such a time, and how the column types of the conflict target
  read the two values of a key), the process environment, the command line and the time
  at the start. \<^verbatim>\<open>NOW()\<close> is the time at which the database began the transaction, not
  the clock of the script, so it is taken from the environment, by the number of the
  call.
\<close>

record env =
  feed_api :: "nat \<Rightarrow> string \<Rightarrow> string \<Rightarrow> nat \<Rightarrow> nat \<Rightarrow> http_result"
  fromisoformat :: "string \<Rightarrow> py_error + datetime"
  isoformat_utc :: "int \<Rightarrow> string"
  isoformat_local :: "int \<Rightarrow> string"
  py_int :: "string \<Rightarrow> py_error + int"
  db_fault :: "nat \<Rightarrow> py_error option"
  db_now :: "nat \<Rightarrow> int"
  directory :: "string option \<Rightarrow> repository list"
  processed_at_default :: "int \<Rightarrow> int option"
  key_columns :: "json \<Rightarrow> json \<Rightarrow> json \<times> json"
  initial_rows :: "cache_row list"
  connect_fault :: "py_error option"
  getenv :: "string \<Rightarrow> string option"
  argv :: "string list"
  start_clock :: int

text \<open>
  The state the script changes: the counters of \<^verbatim>\<open>self.stats\<close> (they start at 0 and are
  only ever added to, hence \<open>nat\<close>), the clock in microseconds (only \<^verbatim>\<open>time.sleep\<close>
  advances it), the requests sent so far (latest first), the number of database calls
  made so far, and the table as committed and as the open transaction sees it.
\<close>

record st =
  repos_processed :: nat
  events_fetched :: nat
  events_inserted :: nat
  api_calls :: nat
  errors :: nat
  clock :: int
  request_log :: "(string \<times> string \<times> nat) list"
  db_ops :: nat
  committed :: "cache_row list"
  working :: "cache_row list"

definition sleep :: "int \<Rightarrow> st \<Rightarrow> st" where
  "sleep micros s = s\<lparr>clock := clock s + micros\<rparr>"

text \<open>\<^verbatim>\<open>int(time.time())\<close>: whole seconds, rounded towards zero.\<close>

definition unix_seconds :: "st \<Rightarrow> int" where
  "unix_seconds s =
     (if 0 \<le> clock s then clock s div 1000000 else - ((- clock s) div 1000000))"

text \<open>
  \<^verbatim>\<open>requests.get(url, params={"page": page, "per_page": 100}, ...)\<close>: the answer of
  the feed to the request the script makes, with its page size of 100.
\<close>

definition per_page :: nat where
  "per_page = 100"

definition feed :: "env \<Rightarrow> nat \<Rightarrow> string \<Rightarrow> string \<Rightarrow> nat \<Rightarrow> http_result" where
  "feed e n own nam page = feed_api e n own nam page per_page"

definition requests_get :: "env \<Rightarrow> string \<Rightarrow> string \<Rightarrow> nat \<Rightarrow> st \<Rightarrow> http_result \<times> st" where
  "requests_get e own nam page s =
     (feed e (length (request_log s)) own nam page,
      s\<lparr>request_log := (own, nam, page) # request_log s\<rparr>)"

section \<open>The statement of the writer\<close>

text \<open>
  The key of a row is the conflict target of the statement, \<^verbatim>\<open>(event_id, created_at)\<close>,
  as the column types of the table read the two values: two spellings of one instant are
  one key. The definition of the table is not among the sources, so the reading is taken
  from the environment.
\<close>

definition row_key :: "env \<Rightarrow> cache_row \<Rightarrow> json \<times> json" where
  "row_key e r = key_columns e (event_id r) (created_at r)"

text \<open>
  \<^verbatim>\<open>INSERT ... VALUES ... ON CONFLICT (event_id, created_at) DO UPDATE SET ...\<close>:
  a row with the key of the new one is updated in place, otherwise the new row is added.
\<close>

definition upsert :: "env \<Rightarrow> cache_row list \<Rightarrow> cache_row \<Rightarrow> int \<Rightarrow> cache_row list" where
  "upsert e rows new now =
     (if row_key e new \<in> row_key e ` set rows
      then map (\<lambda>r. if row_key e r = row_key e new then on_conflict_update now r else r) rows
      else rows @ [new])"

section \<open>The pagination cursor: get_repo_events\<close>

definition relevant_types :: "json list" where
  "relevant_types =
     [JStr ''WatchEvent'', JStr ''ForkEvent'', JStr ''PullRequestEvent'',
      JStr ''IssuesEvent'', JStr ''StarEvent'']"

text \<open>\<^verbatim>\<open>datetime.fromisoformat(event["created_at"].replace("Z", "+00:00"))\<close>.\<close>

definition event_date :: "env \<Rightarrow> json \<Rightarrow> py_error + datetime" where
  "event_date e event =
     try_bind (subscript event ''created_at'')
       (\<lambda>c. case c of JStr s \<Rightarrow> fromisoformat e (replace_Z s) | _ \<Rightarrow> Inl AttributeError)"

text \<open>\<^verbatim>\<open>event_date >= cutoff_date\<close>, the cutoff carrying a time zone.\<close>

fun at_or_after :: "datetime \<Rightarrow> int \<Rightarrow> py_error + bool" where
  "at_or_after (Aware t) cutoff = Inr (cutoff \<le> t)"
| "at_or_after (Naive t) cutoff = Inl TypeError"

text \<open>
  The \<^verbatim>\<open>for event in page_events\<close> loop. It ends at the end of the page, at the first
  event before the cutoff (the function then returns), or at an exception; the list
  \<open>events\<close> keeps what was appended until then.
\<close>

datatype scan = Completed "json list" | Cutoff "json list" | Raised py_error "json list"

fun scan_page :: "env \<Rightarrow> int \<Rightarrow> json list \<Rightarrow> json list \<Rightarrow> scan" where
  "scan_page e cutoff [] events = Completed events"
| "scan_page e cutoff (event # rest) events =
     (case try_bind (event_date e event) (\<lambda>d. at_or_after d cutoff) of
        Inl err \<Rightarrow> Raised err events
      | Inr in_window \<Rightarrow>
          if in_window
          then (case subscript event ''type'' of
                  Inl err \<Rightarrow> Raised err events
                | Inr t \<Rightarrow>
                    scan_page e cutoff rest
                      (if t \<in> set relevant_types then events @ [event] else events))
          else Cutoff events)"

text \<open>
  One turn of \<^verbatim>\<open>while page <= 10\<close>: the loop goes on (\<^verbatim>\<open>continue\<close>, or the end of
  the body), is left by \<^verbatim>\<open>break\<close>, or the function returns from inside it.
\<close>

datatype turn = Continue "json list" nat st | Break "json list" st | Return "json list" st

definition count_error :: "st \<Rightarrow> st" where
  "count_error s = s\<lparr>errors := errors s + 1\<rparr>"

definition on_forbidden :: "env \<Rightarrow> http_result \<Rightarrow> json list \<Rightarrow> nat \<Rightarrow> st \<Rightarrow> turn" where
  "on_forbidden e resp events page s =
     (case rate_limit_reset resp of
        None \<Rightarrow> Break events s
      | Some h \<Rightarrow>
          (case py_int e h of
             Inl err \<Rightarrow> Break events (count_error s)
           | Inr reset_time \<Rightarrow>
               let wait_time = max 0 (reset_time - unix_seconds s + 60) in
               if wait_time < 3600
               then Continue events page (sleep (wait_time * 1000000) s)
               else Break events s))"

definition on_success :: "env \<Rightarrow> int \<Rightarrow> http_result \<Rightarrow> json list \<Rightarrow> nat \<Rightarrow> st \<Rightarrow> turn" where
  "on_success e cutoff resp events page s =
     (case body resp of
        None \<Rightarrow> Break events (count_error s)
      | Some page_events \<Rightarrow>
          if \<not> truthy page_events then Break events s
          else (case iter_json page_events of
                  Inl err \<Rightarrow> Break events (count_error s)
                | Inr items \<Rightarrow>
                    (case scan_page e cutoff items events of
                       Raised err events' \<Rightarrow> Break events' (count_error s)
                     | Cutoff events' \<Rightarrow> Return events' s
                     | Completed events' \<Rightarrow> Continue events' (page + 1) (sleep 500000 s))))"

definition loop_body ::
  "env \<Rightarrow> string \<Rightarrow> string \<Rightarrow> int \<Rightarrow> json list \<Rightarrow> nat \<Rightarrow> st \<Rightarrow> turn" where
  "loop_body e own nam cutoff events page s =
     (case requests_get e own nam page s of
        (Raises err, s1) \<Rightarrow> Break events (count_error s1)
      | (resp, s1) \<Rightarrow>
          let s2 = s1\<lparr>api_calls := api_calls s1 + 1\<rparr> in
          if status_code resp = 404 then Break events s2
          else if status_code resp = 403 then on_forbidden e resp events page s2
          else if status_code resp \<noteq> 200 then Break events s2
          else on_success e cutoff resp events page s2)"

text \<open>The two exits of the function both add the length of the list to the counter.\<close>

definition finish :: "json list \<Rightarrow> st \<Rightarrow> json list \<times> st" where
  "finish events s = (events, s\<lparr>events_fetched := events_fetched s + length events\<rparr>)"

text \<open>
  The \<^verbatim>\<open>while\<close> loop. Nothing bounds the number of its turns (a turn that ends in
  \<^verbatim>\<open>continue\<close> keeps the page), so the loop is a partial function: \<open>None\<close> is a run
  that never returns.
\<close>

partial_function (option) paging ::
  "env \<Rightarrow> string \<Rightarrow> string \<Rightarrow> int \<Rightarrow> json list \<Rightarrow> nat \<Rightarrow> st \<Rightarrow> (json list \<times> st) option" where
  "paging e own nam cutoff events page s =
     (if page \<le> 10
      then (case loop_body e own nam cutoff events page s of
              Continue events' page' s' \<Rightarrow> paging e own nam cutoff events' page' s'
            | Break events' s' \<Rightarrow> Some (finish events' s')
            | Return events' s' \<Rightarrow> Some (finish events' s'))
      else Some (finish events s))"

definition get_repo_events ::
  "env \<Rightarrow> string \<Rightarrow> string \<Rightarrow> int \<Rightarrow> st \<Rightarrow> (json list \<times> st) option" where
  "get_repo_events e own nam days_back s =
     (let cutoff_date = clock s - days_back * 86400000000
      in paging e own nam cutoff_date [] 1 s)"

section \<open>The writer: insert_event\<close>

text \<open>
  A call on the one database connection: the environment says whether it raises.
  A statement that raises has no effect; \<^verbatim>\<open>commit\<close> makes the transaction's view the
  committed table; \<^verbatim>\<open>rollback\<close>, and a \<^verbatim>\<open>commit\<close> that raises, drop the
  transaction's changes.
\<close>

definition db_call :: "env \<Rightarrow> st \<Rightarrow> py_error option \<times> st" where
  "db_call e s = (db_fault e (db_ops s), s\<lparr>db_ops := db_ops s + 1\<rparr>)"

definition execute_upsert :: "env \<Rightarrow> cache_row \<Rightarrow> st \<Rightarrow> py_error option \<times> st" where
  "execute_upsert e new s =
     (case db_call e s of
        (Some err, s1) \<Rightarrow> (Some err, s1)
      | (None, s1) \<Rightarrow>
          (None, s1\<lparr>working := upsert e (working s1) new (db_now e (db_ops s))\<rparr>))"

definition commit :: "env \<Rightarrow> st \<Rightarrow> py_error option \<times> st" where
  "commit e s =
     (case db_call e s of
        (Some err, s1) \<Rightarrow> (Some err, s1\<lparr>working := committed s1\<rparr>)
      | (None, s1) \<Rightarrow> (None, s1\<lparr>committed := working s1\<rparr>))"

definition rollback :: "env \<Rightarrow> st \<Rightarrow> py_error option \<times> st" where
  "rollback e s =
     (case db_call e s of (r, s1) \<Rightarrow> (r, s1\<lparr>working := committed s1\<rparr>))"

text \<open>\<^verbatim>\<open>repository_owner, repository_name = repo_full_name.split("/", 1)\<close>.\<close>

definition split_full_name :: "json \<Rightarrow> py_error + (string \<times> string)" where
  "split_full_name repo_full_name =
     (case repo_full_name of
        JStr s \<Rightarrow> unpack2 (split1 CHR ''/'' s)
      | _ \<Rightarrow> Inl AttributeError)"

text \<open>The dictionary \<^verbatim>\<open>payload\<close> as the script first builds it.\<close>

definition base_payload :: "env \<Rightarrow> st \<Rightarrow> json \<Rightarrow> py_error + (json \<times> json) list" where
  "base_payload e s event =
     try_bind (dict_get event ''action'') (\<lambda>action.
     try_bind (subscript event ''actor'') (\<lambda>actor.
     try_bind (subscript actor ''id'') (\<lambda>actor_id.
     try_bind (subscript actor ''login'') (\<lambda>login.
     try_bind (subscript actor ''avatar_url'') (\<lambda>avatar_url.
     try_bind (subscript event ''repo'') (\<lambda>repo.
     try_bind (subscript repo ''id'') (\<lambda>repo_id.
     try_bind (subscript repo ''name'') (\<lambda>repo_name.
     try_bind (subscript repo ''url'') (\<lambda>repo_url.
     try_bind (subscript event ''public'') (\<lambda>public.
       Inr [(JStr ''action'', action),
            (JStr ''actor'', JObj [(''id'', actor_id), (''login'', login),
                                   (''avatar_url'', avatar_url)]),
            (JStr ''repo'', JObj [(''id'', repo_id), (''name'', repo_name), (''url'', repo_url)]),
            (JStr ''public'', public),
            (JStr ''backfill_source'', JStr ''workspace_backfill''),
            (JStr ''backfill_date'', JStr (isoformat_utc e (clock s)))]))))))))))"

text \<open>\<^verbatim>\<open>"payload" in event\<close>: a key of a dictionary, an element of a list, a part of a string.\<close>

fun contains :: "json \<Rightarrow> string \<Rightarrow> py_error + bool" where
  "contains (JObj kvs) k = Inr (k \<in> fst ` set kvs)"
| "contains (JArr xs) k = Inr (JStr k \<in> set xs)"
| "contains (JStr s) k = Inr (sublist k s)"
| "contains _ k = Inl TypeError"

definition full_payload :: "env \<Rightarrow> st \<Rightarrow> json \<Rightarrow> py_error + (json \<times> json) list" where
  "full_payload e s event =
     try_bind (base_payload e s event) (\<lambda>payload.
     try_bind (contains event ''payload'') (\<lambda>has_payload.
       if has_payload
       then try_bind (subscript event ''payload'') (\<lambda>p. dict_update payload p)
       else Inr payload))"

text \<open>
  The body of the \<^verbatim>\<open>try\<close> in \<^verbatim>\<open>insert_event\<close> up to the call of the database: the
  values of the statement, as the row it would add. A column the statement does not
  name takes the default of the table.
\<close>

definition insert_event_row :: "env \<Rightarrow> st \<Rightarrow> json \<Rightarrow> py_error + cache_row" where
  "insert_event_row e s event =
     try_bind (subscript event ''repo'') (\<lambda>repo.
     try_bind (subscript repo ''name'') (\<lambda>repo_full_name.
     try_bind (split_full_name repo_full_name) (\<lambda>(own, nam).
     try_bind (full_payload e s event) (\<lambda>payload.
     try_bind (subscript event ''id'') (\<lambda>eid.
     try_bind (subscript event ''type'') (\<lambda>etype.
     try_bind (subscript event ''actor'') (\<lambda>actor.
     try_bind (subscript actor ''login'') (\<lambda>login.
     try_bind (subscript event ''created_at'') (\<lambda>created.
       Inr \<lparr>event_id = eid, event_type = etype, actor_login = login,
            repository_owner = own, repository_name = nam,
            payload = dumps_dict payload, created_at = created,
            processed_at = processed_at_default e (db_now e (db_ops s)),
            processing_notes =
              Some (''Workspace backfill on '' @ isoformat_local e (clock s))\<rparr>)))))))))"

text \<open>
  The handler of \<^verbatim>\<open>insert_event\<close>. It first prints \<^verbatim>\<open>event.get('id', 'unknown')\<close>:
  for an event that is no dictionary this raises, the exception leaves the function and
  the error is not counted. Otherwise the error is counted and \<^verbatim>\<open>False\<close> returned.
\<close>

definition insert_error :: "json \<Rightarrow> st \<Rightarrow> (py_error + bool) \<times> st" where
  "insert_error event s =
     (case dict_get event ''id'' of
        Inl err \<Rightarrow> (Inl err, s)
      | Inr shown \<Rightarrow> (Inr False, count_error s))"

text \<open>\<^verbatim>\<open>insert_event\<close>: what it returns, or the exception that leaves it, and the new state.\<close>

definition insert_event :: "env \<Rightarrow> json \<Rightarrow> st \<Rightarrow> (py_error + bool) \<times> st" where
  "insert_event e event s =
     (case insert_event_row e s event of
        Inl err \<Rightarrow> insert_error event s
      | Inr new \<Rightarrow>
          (case execute_upsert e new s of
             (Some err, s1) \<Rightarrow> insert_error event s1
           | (None, s1) \<Rightarrow> (Inr True, s1\<lparr>events_inserted := events_inserted s1 + 1\<rparr>)))"

section \<open>The orchestrator\<close>

text \<open>
  One turn of \<^verbatim>\<open>for event in events\<close> in \<^verbatim>\<open>backfill_repository\<close>. The counts
  \<^verbatim>\<open>inserted_count\<close> and \<^verbatim>\<open>failed_count\<close> are only printed and are left out, as are the
  progress lines (they read fields of the event that \<^verbatim>\<open>insert_event\<close> has read). An exception
  inside the \<^verbatim>\<open>try\<close> (from \<^verbatim>\<open>insert_event\<close>, from \<^verbatim>\<open>commit\<close>, or from the
  \<^verbatim>\<open>rollback\<close> of the \<^verbatim>\<open>else\<close> branch) is handled by a \<^verbatim>\<open>rollback\<close>; if that
  one raises, the exception leaves the function (first component \<open>Some\<close>).
\<close>

definition insert_turn :: "env \<Rightarrow> json \<Rightarrow> st \<Rightarrow> py_error option \<times> st" where
  "insert_turn e event s =
     (case insert_event e event s of
        (Inl err, s1) \<Rightarrow> rollback e s1
      | (Inr True, s1) \<Rightarrow>
          (case commit e s1 of
             (None, s2) \<Rightarrow> (None, s2)
           | (Some err, s2) \<Rightarrow> rollback e s2)
      | (Inr False, s1) \<Rightarrow>
          (case rollback e s1 of
             (None, s2) \<Rightarrow> (None, s2)
           | (Some err, s2) \<Rightarrow> rollback e s2))"

fun insert_all :: "env \<Rightarrow> json list \<Rightarrow> st \<Rightarrow> py_error option \<times> st" where
  "insert_all e [] s = (None, s)"
| "insert_all e (event # rest) s =
     (case insert_turn e event s of
        (Some err, s1) \<Rightarrow> (Some err, s1)
      | (None, s1) \<Rightarrow> insert_all e rest s1)"

definition backfill_days :: int where
  "backfill_days = 30"

definition backfill_repository ::
  "env \<Rightarrow> string \<Rightarrow> string \<Rightarrow> string \<Rightarrow> st \<Rightarrow> (py_error option \<times> st) option" where
  "backfill_repository e own nam ws s =
     (case get_repo_events e own nam backfill_days s of
        None \<Rightarrow> None
      | Some (events, s1) \<Rightarrow>
          if events = [] then Some (None, s1)
          else (case insert_all e events s1 of
                  (Some err, s2) \<Rightarrow> Some (Some err, s2)
                | (None, s2) \<Rightarrow>
                    Some (None, s2\<lparr>repos_processed := repos_processed s2 + 1\<rparr>)))"

text \<open>\<^verbatim>\<open>if workspace_id:\<close> chooses the query; an empty string selects all workspaces.\<close>

definition get_workspace_repositories ::
  "env \<Rightarrow> string option \<Rightarrow> st \<Rightarrow> (py_error + repository list) \<times> st" where
  "get_workspace_repositories e workspace_id s =
     (case db_call e s of
        (Some err, s1) \<Rightarrow> (Inl err, s1)
      | (None, s1) \<Rightarrow>
          (Inr (directory e (case workspace_id of
                              None \<Rightarrow> None
                            | Some w \<Rightarrow> if w = [] then None else Some w)), s1))"

text \<open>
  The \<^verbatim>\<open>for\<close> loop of \<^verbatim>\<open>run_backfill\<close>: an exception that leaves
  \<^verbatim>\<open>backfill_repository\<close> is counted and the loop goes on; after a repository that is
  not the last, two seconds of sleep. (\<^verbatim>\<open>KeyboardInterrupt\<close> is a signal from outside
  and no \<^verbatim>\<open>Exception\<close>; it is not part of the model.)
\<close>

fun repository_loop :: "env \<Rightarrow> repository list \<Rightarrow> st \<Rightarrow> st option" where
  "repository_loop e [] s = Some s"
| "repository_loop e (repo # rest) s =
     (case backfill_repository e (owner repo) (name repo) (workspace repo) s of
        None \<Rightarrow> None
      | Some (None, s1) \<Rightarrow>
          repository_loop e rest (if rest \<noteq> [] then sleep 2000000 s1 else s1)
      | Some (Some err, s1) \<Rightarrow> repository_loop e rest (count_error s1))"

definition run_backfill :: "env \<Rightarrow> string option \<Rightarrow> st \<Rightarrow> (py_error option \<times> st) option" where
  "run_backfill e workspace_id s =
     (case get_workspace_repositories e workspace_id s of
        (Inl err, s1) \<Rightarrow> Some (Some err, s1)
      | (Inr repositories, s1) \<Rightarrow>
          if repositories = [] then Some (None, s1)
          else (case repository_loop e repositories s1 of
                  None \<Rightarrow> None
                | Some s2 \<Rightarrow> Some (db_call e s2)))"

text \<open>\<^verbatim>\<open>WorkspaceEventsBackfill.__init__\<close>: the checks of the configuration, the connection.\<close>

definition unset :: "string option \<Rightarrow> bool" where
  "unset v = (case v of None \<Rightarrow> True | Some s \<Rightarrow> s = [])"

definition placeholder :: "string option \<Rightarrow> bool" where
  "placeholder v = (case v of None \<Rightarrow> False | Some s \<Rightarrow> prefix ''your_'' s)"

definition init :: "env \<Rightarrow> py_error + st" where
  "init e =
     (if unset (getenv e ''SUPABASE_URL'') \<or> unset (getenv e ''SUPABASE_DB_PASSWORD'')
      then Inl ValueError
      else if unset (getenv e ''GITHUB_TOKEN'') \<or> placeholder (getenv e ''GITHUB_TOKEN'')
      then Inl ValueError
      else (case connect_fault e of
              Some err \<Rightarrow> Inl err
            | None \<Rightarrow>
                Inr \<lparr>repos_processed = 0, events_fetched = 0, events_inserted = 0,
                     api_calls = 0, errors = 0, clock = start_clock e, request_log = [],
                     db_ops = 0, committed = initial_rows e, working = initial_rows e\<rparr>))"

text \<open>
  \<^verbatim>\<open>main\<close>: the value it returns, or the exception that leaves it (the constructor is
  called outside the \<^verbatim>\<open>try\<close>); \<open>None\<close> when it never returns. The \<^verbatim>\<open>finally\<close>
  clause closes the connection, which changes nothing of the state below.
\<close>

definition main :: "env \<Rightarrow> (py_error + int) option" where
  "main e =
     (let workspace_id = (if length (argv e) > 1 then Some (argv e ! 1) else None) in
      case init e of
        Inl err \<Rightarrow> Some (Inl err)
      | Inr s \<Rightarrow>
          (case run_backfill e workspace_id s of
             None \<Rightarrow> None
           | Some (Some err, s1) \<Rightarrow> Some (Inr 1)
           | Some (None, s1) \<Rightarrow> Some (Inr 0)))"

text \<open>
  \<^verbatim>\<open>sys.exit(main())\<close>: the status of the process is the value returned; an exception
  that nothing catches ends the interpreter with status 1.
\<close>

definition exit_code :: "py_error + int \<Rightarrow> int" where
  "exit_code r = (case r of Inl err \<Rightarrow> 1 | Inr n \<Rightarrow> n)"

section \<open>A sample environment\<close>

text \<open>
  Concrete inputs on which the statements below are exercised. The library functions of
  the sample are small: \<^verbatim>\<open>int\<close> reads strings of decimal digits, \<^verbatim>\<open>fromisoformat\<close> knows
  three instants, the clock is printed as the day of the start. The run starts on
  2024-03-10 at 00:00 UTC, so that 30 days back is 2024-02-09.
\<close>

fun decimal :: "string \<Rightarrow> int \<Rightarrow> py_error + int" where
  "decimal [] acc = Inr acc"
| "decimal (c # cs) acc =
     (if 48 \<le> (of_char c :: nat) \<and> (of_char c :: nat) \<le> 57
      then decimal cs (10 * acc + int (of_char c) - 48)
      else Inl ValueError)"

definition sample_int :: "string \<Rightarrow> py_error + int" where
  "sample_int s = (if s = [] then Inl ValueError else decimal s 0)"

definition sample_fromisoformat :: "string \<Rightarrow> py_error + datetime" where
  "sample_fromisoformat s =
     (if s = ''2024-03-01T00:00:00+00:00'' then Inr (Aware 1709251200000000)
      else if s = ''2024-02-20T00:00:00+00:00'' then Inr (Aware 1708387200000000)
      else if s = ''2024-01-01T00:00:00+00:00'' then Inr (Aware 1704067200000000)
      else Inl ValueError)"

text \<open>
  The key of the sample table: the event id as it is, the creation time as the instant
  it denotes (so that \<^verbatim>\<open>Z\<close> and \<^verbatim>\<open>+00:00\<close> give one key).
\<close>

definition sample_key_columns :: "json \<Rightarrow> json \<Rightarrow> json \<times> json" where
  "sample_key_columns eid created =
     (eid,
      case created of
        JStr s \<Rightarrow>
          (case sample_fromisoformat (replace_Z s) of
             Inr (Aware t) \<Rightarrow> JNum t
           | _ \<Rightarrow> created)
      | _ \<Rightarrow> created)"

definition sample_getenv :: "string \<Rightarrow> string option" where
  "sample_getenv k =
     (if k = ''SUPABASE_URL'' then Some ''https://abc.supabase.co''
      else if k = ''SUPABASE_DB_PASSWORD'' then Some ''secret''
      else if k = ''GITHUB_TOKEN'' then Some ''ghp_token''
      else None)"

definition sample_env ::
  "(nat \<Rightarrow> string \<Rightarrow> string \<Rightarrow> nat \<Rightarrow> http_result) \<Rightarrow> (nat \<Rightarrow> py_error option) \<Rightarrow>
   repository list \<Rightarrow> env" where
  "sample_env f faults repos =
     \<lparr>feed_api = (\<lambda>n own nam page size. f n own nam page),
      fromisoformat = sample_fromisoformat,
      isoformat_utc = (\<lambda>t. ''2024-03-10T00:00:00+00:00''),
      isoformat_local = (\<lambda>t. ''2024-03-10T00:00:00''),
      py_int = sample_int,
      db_fault = faults,
      db_now = (\<lambda>n. 1710028800000000),
      directory = (\<lambda>w. repos),
      processed_at_default = (\<lambda>t. None),
      key_columns = sample_key_columns,
      initial_rows = [],
      connect_fault = None,
      getenv = sample_getenv,
      argv = [''backfill-workspace-events.py''],
      start_clock = 1710028800000000\<rparr>"

definition no_fault :: "nat \<Rightarrow> py_error option" where
  "no_fault n = None"

definition sample_start :: st where
  "sample_start =
     \<lparr>repos_processed = 0, events_fetched = 0, events_inserted = 0, api_calls = 0,
      errors = 0, clock = 1710028800000000, request_log = [], db_ops = 0,
      committed = [], working = []\<rparr>"

definition sample_event :: "string \<Rightarrow> string \<Rightarrow> string \<Rightarrow> string \<Rightarrow> json" where
  "sample_event eid etype created full_name =
     JObj [(''id'', JStr eid), (''type'', JStr etype), (''created_at'', JStr created),
           (''actor'', JObj [(''id'', JNum 7), (''login'', JStr ''octocat''),
                             (''avatar_url'', JStr ''https://a/7'')]),
           (''repo'', JObj [(''id'', JNum 1), (''name'', JStr full_name),
                            (''url'', JStr ''https://r/1'')]),
           (''public'', JBool True),
           (''payload'', JObj [(''action'', JStr ''started'')])]"

text \<open>A feed whose first page holds the given events and whose later pages are empty.\<close>

definition one_page :: "json list \<Rightarrow> nat \<Rightarrow> string \<Rightarrow> string \<Rightarrow> nat \<Rightarrow> http_result" where
  "one_page evs n own nam page =
     (if page = 1 then Response 200 None (Some (JArr evs)) else Response 200 None (Some (JArr [])))"

text \<open>
  A table that already holds event 41, written the day before with its creation time
  spelled \<^verbatim>\<open>+00:00\<close>, and the row that \<^verbatim>\<open>insert_event\<close> builds for the same event
  as the feed spells it, with \<^verbatim>\<open>Z\<close>, under another type and repository.
\<close>

definition stored_row :: cache_row where
  "stored_row =
     \<lparr>event_id = JStr ''41'', event_type = JStr ''WatchEvent'', actor_login = JStr ''octocat'',
      repository_owner = ''a'', repository_name = ''b'',
      payload = JObj [(''action'', JStr ''started'')],
      created_at = JStr ''2024-03-01T00:00:00+00:00'', processed_at = None,
      processing_notes = Some ''Workspace backfill on 2024-03-09T00:00:00''\<rparr>"

definition stored_start :: st where
  "stored_start = sample_start\<lparr>committed := [stored_row], working := [stored_row]\<rparr>"

definition rewrite_row :: cache_row where
  "rewrite_row =
     \<lparr>event_id = JStr ''41'', event_type = JStr ''ForkEvent'', actor_login = JStr ''octocat'',
      repository_owner = ''x'', repository_name = ''y'',
      payload =
        JObj [(''action'', JStr ''started''),
              (''actor'', JObj [(''id'', JNum 7), (''login'', JStr ''octocat''),
                                (''avatar_url'', JStr ''https://a/7'')]),
              (''repo'', JObj [(''id'', JNum 1), (''name'', JStr ''x/y''),
                               (''url'', JStr ''https://r/1'')]),
              (''public'', JBool True),
              (''backfill_source'', JStr ''workspace_backfill''),
              (''backfill_date'', JStr ''2024-03-10T00:00:00+00:00'')],
      created_at = JStr ''2024-03-01T00:00:00Z'', processed_at = None,
      processing_notes = Some ''Workspace backfill on 2024-03-10T00:00:00''\<rparr>"

definition in_window :: "env \<Rightarrow> int \<Rightarrow> json \<Rightarrow> bool" where
  "in_window e cutoff event =
     (case event_date e event of Inr (Aware t) \<Rightarrow> cutoff \<le> t | _ \<Rightarrow> False)"

definition before_cutoff :: "env \<Rightarrow> int \<Rightarrow> json \<Rightarrow> bool" where
  "before_cutoff e cutoff event =
     (case event_date e event of Inr (Aware t) \<Rightarrow> t < cutoff | _ \<Rightarrow> False)"

definition relevant :: "json \<Rightarrow> bool" where
  "relevant event =
     (case subscript event ''type'' of Inr t \<Rightarrow> t \<in> set relevant_types | Inl err \<Rightarrow> False)"

fun scan_events :: "scan \<Rightarrow> json list" where
  "scan_events (Completed events) = events"
| "scan_events (Cutoff events) = events"
| "scan_events (Raised err events) = events"

fun turn_events :: "turn \<Rightarrow> json list" where
  "turn_events (Continue events page s) = events"
| "turn_events (Break events s) = events"
| "turn_events (Return events s) = events"

fun turn_state :: "turn \<Rightarrow> st" where
  "turn_state (Continue events page s) = s"
| "turn_state (Break events s) = s"
| "turn_state (Return events s) = s"

definition cursor_frame :: "st \<Rightarrow> st \<Rightarrow> bool" where
  "cursor_frame s s' =
     (repos_processed s' = repos_processed s \<and> events_inserted s' = events_inserted s
      \<and> db_ops s' = db_ops s \<and> committed s' = committed s \<and> working s' = working s)"

text \<open>Sample events: two of 1 March 2024, one of them of a type the cursor drops, and one of 1 January.\<close>

definition watch_new :: json where
  "watch_new = sample_event ''1'' ''WatchEvent'' ''2024-03-01T00:00:00Z'' ''a/b''"

definition push_new :: json where
  "push_new = sample_event ''2'' ''PushEvent'' ''2024-03-01T00:00:00Z'' ''a/b''"

definition watch_old :: json where
  "watch_old = sample_event ''3'' ''WatchEvent'' ''2024-01-01T00:00:00Z'' ''a/b''"

text \<open>
  A feed that answers the first \<open>k\<close> requests with status 403 and the reset time \<open>h\<close>,
  and every later request with status 404.
\<close>

definition retry_feed :: "nat \<Rightarrow> string \<Rightarrow> nat \<Rightarrow> string \<Rightarrow> string \<Rightarrow> nat \<Rightarrow> http_result" where
  "retry_feed k h n own nam page =
     (if n < k then Response 403 (Some h) None else Response 404 None None)"

text \<open>A feed that answers every request with status 403 and the reset time \<open>h\<close>.\<close>

definition forbidden_feed :: "string \<Rightarrow> nat \<Rightarrow> string \<Rightarrow> string \<Rightarrow> nat \<Rightarrow> http_result" where
  "forbidden_feed h n own nam page = Response 403 (Some h) None"

text \<open>The state after a request that was answered with a status.\<close>

definition answered :: "string \<Rightarrow> string \<Rightarrow> nat \<Rightarrow> st \<Rightarrow> st" where
  "answered own nam page s =
     s\<lparr>request_log := (own, nam, page) # request_log s, api_calls := api_calls s + 1\<rparr>"

text \<open>
  The state in which a retry after status 403 is sure: the clock is at or after the epoch
  and the reset time is less than 3540 seconds ahead.
\<close>

definition retry_ready :: "int \<Rightarrow> st \<Rightarrow> bool" where
  "retry_ready reset s = (0 \<le> clock s \<and> reset - unix_seconds s + 60 < 3600)"

text \<open>A request answered with status 200 and a list of events as its body.\<close>

fun ok_page :: "http_result \<Rightarrow> json list \<Rightarrow> bool" where
  "ok_page (Response code hdr b) evs = (code = 200 \<and> b = Some (JArr evs))"
| "ok_page (Raises err) evs = False"

definition typed :: "json \<Rightarrow> bool" where
  "typed event = (case subscript event ''type'' of Inr t \<Rightarrow> True | Inl err \<Rightarrow> False)"

definition fork_new :: json where
  "fork_new = sample_event ''4'' ''ForkEvent'' ''2024-02-20T00:00:00Z'' ''a/b''"

text \<open>A feed of two pages of events, all later pages being empty.\<close>

definition two_pages ::
  "json list \<Rightarrow> json list \<Rightarrow> nat \<Rightarrow> string \<Rightarrow> string \<Rightarrow> nat \<Rightarrow> http_result" where
  "two_pages first second n own nam page =
     (if page = 1 then Response 200 None (Some (JArr first))
      else if page = 2 then Response 200 None (Some (JArr second))
      else Response 200 None (Some (JArr [])))"

text \<open>A feed with a gap: page 2 is empty, page 3 is not.\<close>

definition gap_feed :: "nat \<Rightarrow> string \<Rightarrow> string \<Rightarrow> nat \<Rightarrow> http_result" where
  "gap_feed n own nam page =
     (if page = 1 then Response 200 None (Some (JArr [watch_new]))
      else if page = 3 then Response 200 None (Some (JArr [fork_new, watch_old]))
      else Response 200 None (Some (JArr [])))"








text \<open>The causes of a run that ends with status 1.\<close>

definition config_missing :: "env \<Rightarrow> bool" where
  "config_missing e =
     (unset (getenv e ''SUPABASE_URL'') \<or> unset (getenv e ''SUPABASE_DB_PASSWORD'')
      \<or> unset (getenv e ''GITHUB_TOKEN'') \<or> placeholder (getenv e ''GITHUB_TOKEN''))"

definition connect_fails :: "env \<Rightarrow> bool" where
  "connect_fails e = (case connect_fault e of None \<Rightarrow> False | Some err \<Rightarrow> True)"

definition lookup_fails :: "env \<Rightarrow> bool" where
  "lookup_fails e = (case db_fault e 0 of None \<Rightarrow> False | Some err \<Rightarrow> True)"

definition workspace_arg :: "env \<Rightarrow> string option" where
  "workspace_arg e = (if length (argv e) > 1 then Some (argv e ! 1) else None)"

text \<open>
  The query \<^verbatim>\<open>SELECT COUNT(*)\<close> at the end of \<^verbatim>\<open>run_backfill\<close> raises: the run got
  as far as that query (the set-up and the directory query went well, there were
  repositories, the loop over them ended) and the database call made there fails.
\<close>

definition final_count_fails :: "env \<Rightarrow> bool" where
  "final_count_fails e =
     (case init e of
        Inl err \<Rightarrow> False
      | Inr s0 \<Rightarrow>
          (case get_workspace_repositories e (workspace_arg e) s0 of
             (Inl err, s1) \<Rightarrow> False
           | (Inr repositories, s1) \<Rightarrow>
               repositories \<noteq> [] \<and>
               (case repository_loop e repositories s1 of
                  None \<Rightarrow> False
                | Some s2 \<Rightarrow> (case db_fault e (db_ops s2) of None \<Rightarrow> False | Some err \<Rightarrow> True))))"

definition fault_at :: "nat \<Rightarrow> nat \<Rightarrow> py_error option" where
  "fault_at k n = (if n = k then Some DatabaseError else None)"

definition sample_repository :: repository where
  "sample_repository = \<lparr>owner = ''a'', name = ''b'', workspace = ''w''\<rparr>"

text \<open>
  Two rows that agree on every column but \<^verbatim>\<open>processed_at\<close> and \<^verbatim>\<open>processing_notes\<close>;
  a table that still holds the rows of an earlier one, in their places, up to those two
  columns.
\<close>

definition same_columns :: "cache_row \<Rightarrow> cache_row \<Rightarrow> bool" where
  "same_columns r r' =
     (event_id r' = event_id r \<and> created_at r' = created_at r
      \<and> event_type r' = event_type r \<and> actor_login r' = actor_login r
      \<and> repository_owner r' = repository_owner r \<and> repository_name r' = repository_name r
      \<and> payload r' = payload r)"

definition kept :: "cache_row list \<Rightarrow> cache_row list \<Rightarrow> bool" where
  "kept rows rows' =
     (length rows \<le> length rows' \<and> list_all2 same_columns rows (take (length rows) rows'))"

text \<open>
  What the writes of a run do to a state: the log of requests stays, the error counter
  does not go down, and if the open transaction held the committed rows before, it does
  so after, and the rows committed before are still committed.
\<close>

definition progress :: "st \<Rightarrow> st \<Rightarrow> bool" where
  "progress s s' =
     (request_log s' = request_log s \<and> errors s \<le> errors s'
      \<and> (if kept (committed s) (working s)
          then kept (committed s') (working s') \<and> kept (committed s) (committed s')
          else True))"


section \<open>Properties of the conflict clause\<close>

lemmas sample_defs = feed_def per_page_def sample_key_columns_def sample_env_def sample_start_def sample_event_def sample_int_def
  sample_fromisoformat_def sample_getenv_def no_fault_def one_page_def

lemmas writer_defs = insert_event_def insert_error_def insert_event_row_def full_payload_def base_payload_def
  split_full_name_def split1_def execute_upsert_def db_call_def upsert_def row_key_def
  dumps_dict_def
  try_bind_def count_error_def

lemma upsert_conflict_map:
  "row_key e new \<in> row_key e ` set rows \<Longrightarrow>
   upsert e rows new now =
     map (\<lambda>r. if row_key e r = row_key e new then on_conflict_update now r else r) rows"
  by (simp add: upsert_def)

lemma row_key_on_conflict_update [simp]: "row_key e (on_conflict_update now r) = row_key e r"
  by (simp add: row_key_def on_conflict_update_def)

lemma upsert_key_count:
  "row_key e new \<in> row_key e ` set rows \<Longrightarrow>
   length (filter (\<lambda>r. row_key e r = k) (upsert e rows new now)) =
   length (filter (\<lambda>r. row_key e r = k) rows)"
proof -
  assume ex: "row_key e new \<in> row_key e ` set rows"
  have "filter (\<lambda>r. row_key e r = k)
          (map (\<lambda>r. if row_key e r = row_key e new then on_conflict_update now r else r) rows) =
        map (\<lambda>r. if row_key e r = row_key e new then on_conflict_update now r else r)
          (filter (\<lambda>r. row_key e r = k) rows)"
    by (induction rows) auto
  with ex show ?thesis
    by (simp add: upsert_conflict_map)
qed

lemma upsert_conflict_frame:
  assumes "row_key e new \<in> row_key e ` set rows"
  shows "length (upsert e rows new now) = length rows
       \<and> length (filter (\<lambda>r. row_key e r = row_key e new) (upsert e rows new now)) =
         length (filter (\<lambda>r. row_key e r = row_key e new) rows)
       \<and> (\<forall>i < length rows.
            let old = rows ! i; r = upsert e rows new now ! i in
            if row_key e old = row_key e new
            then processed_at r = Some now
               \<and> processing_notes r = Some (coalesce (processing_notes old) @ update_marker)
               \<and> event_id r = event_id old \<and> created_at r = created_at old
               \<and> payload r = payload old \<and> actor_login r = actor_login old
               \<and> event_type r = event_type old
               \<and> repository_owner r = repository_owner old
               \<and> repository_name r = repository_name old
            else r = old)"
proof -
  have len: "length (upsert e rows new now) = length rows"
    using assms by (simp add: upsert_conflict_map)
  have cnt: "length (filter (\<lambda>r. row_key e r = row_key e new) (upsert e rows new now)) =
             length (filter (\<lambda>r. row_key e r = row_key e new) rows)"
    using assms by (rule upsert_key_count)
  have pt: "\<forall>i < length rows.
            let old = rows ! i; r = upsert e rows new now ! i in
            if row_key e old = row_key e new
            then processed_at r = Some now
               \<and> processing_notes r = Some (coalesce (processing_notes old) @ update_marker)
               \<and> event_id r = event_id old \<and> created_at r = created_at old
               \<and> payload r = payload old \<and> actor_login r = actor_login old
               \<and> event_type r = event_type old
               \<and> repository_owner r = repository_owner old
               \<and> repository_name r = repository_name old
            else r = old"
    using assms by (simp add: upsert_conflict_map on_conflict_update_def Let_def)
  from len cnt pt show ?thesis by blast
qed

text \<open>
  A write that goes through: the row is built, the statement and the \<^verbatim>\<open>commit\<close> do not
  raise. \<^verbatim>\<open>insert_event\<close> runs the statement on the transaction's table and counts the
  event; the turn of the loop in \<^verbatim>\<open>backfill_repository\<close> then commits that table.
\<close>

lemma insert_turn_written:
  assumes "insert_event_row e s event = Inr new"
    and "db_fault e (db_ops s) = None"
    and "db_fault e (db_ops s + 1) = None"
  shows "insert_event e event s =
           (Inr True, s\<lparr>db_ops := db_ops s + 1,
                        working := upsert e (working s) new (db_now e (db_ops s)),
                        events_inserted := events_inserted s + 1\<rparr>)"
    and "insert_turn e event s =
           (None, s\<lparr>db_ops := db_ops s + 2,
                     working := upsert e (working s) new (db_now e (db_ops s)),
                     events_inserted := events_inserted s + 1,
                     committed := upsert e (working s) new (db_now e (db_ops s))\<rparr>)"
  using assms
  by (simp_all add: insert_turn_def insert_event_def execute_upsert_def commit_def db_call_def)

lemma singleton_nth: "length xs = 1 \<Longrightarrow> xs = [xs ! 0]"
  by (cases xs) simp_all

text \<open>
  Claim C1. For every write of an event whose key \<^verbatim>\<open>(event_id, created_at)\<close>, as the
  table reads it, is already in the store, where the statement and the \<^verbatim>\<open>commit\<close> do not
  raise: \<^verbatim>\<open>insert_event\<close> returns \<^verbatim>\<open>True\<close>, the \<^verbatim>\<open>commit\<close> of
  \<^verbatim>\<open>backfill_repository\<close> makes the written table the committed one, and that table has
  no row more than before and as many rows with the key as before. A row with the key
  has \<^verbatim>\<open>processed_at\<close> set to the time \<^verbatim>\<open>NOW()\<close> has in the statement and the marker
  \<^verbatim>\<open>; Updated from workspace backfill\<close> appended to its notes (to the empty text if it had
  none); its \<^verbatim>\<open>event_id\<close>, \<^verbatim>\<open>created_at\<close>, \<^verbatim>\<open>payload\<close>, \<^verbatim>\<open>actor_login\<close>,
  \<^verbatim>\<open>event_type\<close>, \<^verbatim>\<open>repository_owner\<close> and \<^verbatim>\<open>repository_name\<close> are the ones it had.
  Every other row is unchanged. The write counts one event inserted and no error.
\<close>

theorem write_on_existing_key_frame:
  assumes "insert_event_row e s event = Inr new"
    and "row_key e new \<in> row_key e ` set (working s)"
    and "db_fault e (db_ops s) = None"
    and "db_fault e (db_ops s + 1) = None"
  shows "\<exists>s1 s2. insert_event e event s = (Inr True, s1)
       \<and> commit e s1 = (None, s2)
       \<and> insert_turn e event s = (None, s2)
       \<and> committed s2 = working s1 \<and> working s2 = working s1
       \<and> length (working s1) = length (working s)
       \<and> length (filter (\<lambda>r. row_key e r = row_key e new) (working s1)) =
         length (filter (\<lambda>r. row_key e r = row_key e new) (working s))
       \<and> (\<forall>i < length (working s).
            let old = working s ! i; r = working s1 ! i in
            if row_key e old = row_key e new
            then processed_at r = Some (db_now e (db_ops s))
               \<and> processing_notes r = Some (coalesce (processing_notes old) @ update_marker)
               \<and> event_id r = event_id old \<and> created_at r = created_at old
               \<and> payload r = payload old \<and> actor_login r = actor_login old
               \<and> event_type r = event_type old
               \<and> repository_owner r = repository_owner old
               \<and> repository_name r = repository_name old
            else r = old)
       \<and> events_inserted s2 = events_inserted s + 1 \<and> errors s2 = errors s"
proof -
  let ?rows = "upsert e (working s) new (db_now e (db_ops s))"
  let ?s1 = "s\<lparr>db_ops := db_ops s + 1, working := ?rows,
               events_inserted := events_inserted s + 1\<rparr>"
  let ?s2 = "s\<lparr>db_ops := db_ops s + 2, working := ?rows,
               events_inserted := events_inserted s + 1, committed := ?rows\<rparr>"
  have ie: "insert_event e event s = (Inr True, ?s1)"
    using assms(1,3,4) by (rule insert_turn_written(1))
  have it: "insert_turn e event s = (None, ?s2)"
    using assms(1,3,4) by (rule insert_turn_written(2))
  have co: "commit e ?s1 = (None, ?s2)"
    using assms(4) by (simp add: commit_def db_call_def)
  note frame = upsert_conflict_frame [OF assms(2), of "db_now e (db_ops s)"]
  show ?thesis
    apply (rule exI [of _ ?s1], rule exI [of _ ?s2])
    using ie it co frame by simp
qed

text \<open>
  The sample: event 41 is in the table as a \<^verbatim>\<open>WatchEvent\<close> of \<^verbatim>\<open>a/b\<close> created at
  \<^verbatim>\<open>2024-03-01T00:00:00+00:00\<close>; the feed gives it again as a \<^verbatim>\<open>ForkEvent\<close> of \<^verbatim>\<open>x/y\<close>
  created at \<^verbatim>\<open>2024-03-01T00:00:00Z\<close>. The two spellings are one key; after the write the
  table holds the one row, with the columns of the first write.
\<close>

theorem write_on_existing_key_frame_witness:
  "insert_event_row (sample_env (one_page []) no_fault [])
       stored_start (sample_event ''41'' ''ForkEvent'' ''2024-03-01T00:00:00Z'' ''x/y'') =
     Inr rewrite_row
   \<and> created_at rewrite_row \<noteq> created_at stored_row
   \<and> row_key (sample_env (one_page []) no_fault []) rewrite_row
       \<in> row_key (sample_env (one_page []) no_fault []) ` set (working stored_start)
   \<and> (\<exists>s'. insert_turn (sample_env (one_page []) no_fault [])
              (sample_event ''41'' ''ForkEvent'' ''2024-03-01T00:00:00Z'' ''x/y'') stored_start =
              (None, s')
          \<and> committed s' =
              [\<lparr>event_id = JStr ''41'', event_type = JStr ''WatchEvent'',
                actor_login = JStr ''octocat'', repository_owner = ''a'',
                repository_name = ''b'', payload = JObj [(''action'', JStr ''started'')],
                created_at = JStr ''2024-03-01T00:00:00+00:00'',
                processed_at = Some 1710028800000000,
                processing_notes =
                  Some ''Workspace backfill on 2024-03-09T00:00:00; Updated from workspace backfill''\<rparr>]
          \<and> events_inserted s' = 1 \<and> errors s' = 0)"
proof -
  let ?e = "sample_env (one_page []) no_fault []"
  let ?ev = "sample_event ''41'' ''ForkEvent'' ''2024-03-01T00:00:00Z'' ''x/y''"
  have row: "insert_event_row ?e stored_start ?ev = Inr rewrite_row"
    by (simp add: sample_defs writer_defs stored_start_def rewrite_row_def)
  have spell: "created_at rewrite_row \<noteq> created_at stored_row"
    by (simp add: rewrite_row_def stored_row_def)
  have same: "row_key ?e stored_row = row_key ?e rewrite_row"
    by (simp add: row_key_def sample_defs replace_Z_def rewrite_row_def stored_row_def)
  have wk: "working stored_start = [stored_row]"
    by (simp add: stored_start_def)
  have key: "row_key ?e rewrite_row \<in> row_key ?e ` set (working stored_start)"
    using same wk by simp
  have f1: "db_fault ?e (db_ops stored_start) = None"
    by (simp add: sample_defs)
  have f2: "db_fault ?e (db_ops stored_start + 1) = None"
    by (simp add: sample_defs)
  from write_on_existing_key_frame [OF row key f1 f2]
  obtain s1 s2 where all: "insert_event ?e ?ev stored_start = (Inr True, s1)
       \<and> commit ?e s1 = (None, s2)
       \<and> insert_turn ?e ?ev stored_start = (None, s2)
       \<and> committed s2 = working s1 \<and> working s2 = working s1
       \<and> length (working s1) = length (working stored_start)
       \<and> length (filter (\<lambda>r. row_key ?e r = row_key ?e rewrite_row) (working s1)) =
         length (filter (\<lambda>r. row_key ?e r = row_key ?e rewrite_row) (working stored_start))
       \<and> (\<forall>i < length (working stored_start).
            let old = working stored_start ! i; r = working s1 ! i in
            if row_key ?e old = row_key ?e rewrite_row
            then processed_at r = Some (db_now ?e (db_ops stored_start))
               \<and> processing_notes r = Some (coalesce (processing_notes old) @ update_marker)
               \<and> event_id r = event_id old \<and> created_at r = created_at old
               \<and> payload r = payload old \<and> actor_login r = actor_login old
               \<and> event_type r = event_type old
               \<and> repository_owner r = repository_owner old
               \<and> repository_name r = repository_name old
            else r = old)
       \<and> events_inserted s2 = events_inserted stored_start + 1
       \<and> errors s2 = errors stored_start"
    by (elim exE) (rule that)
  from all have it: "insert_turn ?e ?ev stored_start = (None, s2)"
    by (elim conjE)
  from all have cw: "committed s2 = working s1"
    by (elim conjE)
  from all have len: "length (working s1) = length (working stored_start)"
    by (elim conjE)
  from all have pt: "\<forall>i < length (working stored_start).
            let old = working stored_start ! i; r = working s1 ! i in
            if row_key ?e old = row_key ?e rewrite_row
            then processed_at r = Some (db_now ?e (db_ops stored_start))
               \<and> processing_notes r = Some (coalesce (processing_notes old) @ update_marker)
               \<and> event_id r = event_id old \<and> created_at r = created_at old
               \<and> payload r = payload old \<and> actor_login r = actor_login old
               \<and> event_type r = event_type old
               \<and> repository_owner r = repository_owner old
               \<and> repository_name r = repository_name old
            else r = old"
    by (elim conjE)
  from all have cnt: "events_inserted s2 = events_inserted stored_start + 1"
    by (elim conjE)
  from all have err: "errors s2 = errors stored_start"
    by (elim conjE)
  let ?r = "working s1 ! 0"
  from pt have cols: "processed_at ?r = Some (db_now ?e (db_ops stored_start))
               \<and> processing_notes ?r = Some (coalesce (processing_notes stored_row) @ update_marker)
               \<and> event_id ?r = event_id stored_row \<and> created_at ?r = created_at stored_row
               \<and> payload ?r = payload stored_row \<and> actor_login ?r = actor_login stored_row
               \<and> event_type ?r = event_type stored_row
               \<and> repository_owner ?r = repository_owner stored_row
               \<and> repository_name ?r = repository_name stored_row"
    using same wk by (simp add: Let_def)
  have r: "?r = \<lparr>event_id = JStr ''41'', event_type = JStr ''WatchEvent'',
                actor_login = JStr ''octocat'', repository_owner = ''a'',
                repository_name = ''b'', payload = JObj [(''action'', JStr ''started'')],
                created_at = JStr ''2024-03-01T00:00:00+00:00'',
                processed_at = Some 1710028800000000,
                processing_notes =
                  Some ''Workspace backfill on 2024-03-09T00:00:00; Updated from workspace backfill''\<rparr>"
    using cols
    by (cases ?r)
       (simp add: stored_row_def stored_start_def sample_start_def sample_env_def
          coalesce_def update_marker_def)
  from len wk have "working s1 = [?r]"
    by (simp add: singleton_nth)
  with cw r have "committed s2 = [\<lparr>event_id = JStr ''41'', event_type = JStr ''WatchEvent'',
                actor_login = JStr ''octocat'', repository_owner = ''a'',
                repository_name = ''b'', payload = JObj [(''action'', JStr ''started'')],
                created_at = JStr ''2024-03-01T00:00:00+00:00'',
                processed_at = Some 1710028800000000,
                processing_notes =
                  Some ''Workspace backfill on 2024-03-09T00:00:00; Updated from workspace backfill''\<rparr>]"
    by simp
  moreover from cnt err have "events_inserted s2 = 1 \<and> errors s2 = 0"
    by (simp add: stored_start_def sample_start_def)
  ultimately show ?thesis
    using row spell key it by blast
qed

section \<open>Rejecting a malformed repository name\<close>

lemma split1_at_first:
  "sep \<notin> set own \<Longrightarrow> split1 sep (own @ sep # rest) = [own, rest]"
  by (induction own) (auto simp: split1_def)

lemma split1_no_separator: "sep \<notin> set s \<Longrightarrow> split1 sep s = [s]"
  by (simp add: split1_def)

lemma dict_get_of_dictionary:
  "subscript event k = Inr v \<Longrightarrow> \<exists>shown. dict_get event k' = Inr shown"
  by (cases event) (auto split: option.splits)

text \<open>
  Claim C2, as the code has it. The name is split at its first \<^verbatim>\<open>/\<close> only
  (\<^verbatim>\<open>split("/", 1)\<close>). An event whose \<^verbatim>\<open>repo.name\<close> has no \<^verbatim>\<open>/\<close> is rejected:
  \<^verbatim>\<open>insert_event\<close> returns \<^verbatim>\<open>False\<close>, the error counter goes up by one and nothing
  else changes, so no statement reaches the table. A name with one \<^verbatim>\<open>/\<close> or more is
  not rejected for its name: the owner is the part before the first \<^verbatim>\<open>/\<close>, the
  repository name is all the rest, further \<^verbatim>\<open>/\<close> included.
\<close>

theorem name_without_separator_rejected:
  assumes "subscript event ''repo'' = Inr repo"
    and "subscript repo ''name'' = Inr (JStr full)"
  shows "(CHR ''/'' \<notin> set full \<longrightarrow>
            insert_event e event s = (Inr False, s\<lparr>errors := errors s + 1\<rparr>))
       \<and> (\<forall>own rest. full = own @ CHR ''/'' # rest \<and> CHR ''/'' \<notin> set own \<longrightarrow>
            split_full_name (JStr full) = Inr (own, rest)
            \<and> (\<forall>row. insert_event_row e s event = Inr row \<longrightarrow>
                  repository_owner row = own \<and> repository_name row = rest))"
proof (intro conjI impI allI)
  assume "CHR ''/'' \<notin> set full"
  then have "split_full_name (JStr full) = Inl ValueError"
    by (simp add: split_full_name_def split1_no_separator)
  with assms have "insert_event_row e s event = Inl ValueError"
    by (simp add: insert_event_row_def try_bind_def)
  moreover from assms(1) obtain shown where "dict_get event ''id'' = Inr shown"
    using dict_get_of_dictionary by blast
  ultimately show "insert_event e event s = (Inr False, s\<lparr>errors := errors s + 1\<rparr>)"
    by (simp add: insert_event_def insert_error_def count_error_def)
next
  fix own rest
  assume "full = own @ CHR ''/'' # rest \<and> CHR ''/'' \<notin> set own"
  then show "split_full_name (JStr full) = Inr (own, rest)"
    by (simp add: split_full_name_def split1_at_first)
next
  fix own rest row
  assume parts: "full = own @ CHR ''/'' # rest \<and> CHR ''/'' \<notin> set own"
    and row: "insert_event_row e s event = Inr row"
  from parts have "split_full_name (JStr full) = Inr (own, rest)"
    by (simp add: split_full_name_def split1_at_first)
  with assms row show "repository_owner row = own"
    by (auto simp: insert_event_row_def try_bind_def split: sum.splits)
next
  fix own rest row
  assume parts: "full = own @ CHR ''/'' # rest \<and> CHR ''/'' \<notin> set own"
    and row: "insert_event_row e s event = Inr row"
  from parts have "split_full_name (JStr full) = Inr (own, rest)"
    by (simp add: split_full_name_def split1_at_first)
  with assms row show "repository_name row = rest"
    by (auto simp: insert_event_row_def try_bind_def split: sum.splits)
qed

text \<open>The sample: a name without separator is rejected, \<^verbatim>\<open>a/b/c\<close> splits into \<^verbatim>\<open>a\<close> and \<^verbatim>\<open>b/c\<close>.\<close>

theorem name_without_separator_rejected_witness:
  "insert_event (sample_env (one_page []) no_fault [])
     (sample_event ''1'' ''WatchEvent'' ''2024-03-01T00:00:00Z'' ''nobody'') sample_start =
     (Inr False, sample_start\<lparr>errors := errors sample_start + 1\<rparr>)
   \<and> split_full_name (JStr ''a/b/c'') = Inr (''a'', ''b/c'')"
proof -
  have r1: "subscript (sample_event ''1'' ''WatchEvent'' ''2024-03-01T00:00:00Z'' ''nobody'') ''repo''
        = Inr (JObj [(''id'', JNum 1), (''name'', JStr ''nobody''), (''url'', JStr ''https://r/1'')])"
    by (simp add: sample_event_def)
  have n1: "subscript (JObj [(''id'', JNum 1), (''name'', JStr ''nobody''),
                            (''url'', JStr ''https://r/1'')]) ''name'' = Inr (JStr ''nobody'')"
    by simp
  have r2: "subscript (sample_event ''1'' ''WatchEvent'' ''2024-03-01T00:00:00Z'' ''a/b/c'') ''repo''
        = Inr (JObj [(''id'', JNum 1), (''name'', JStr ''a/b/c''), (''url'', JStr ''https://r/1'')])"
    by (simp add: sample_event_def)
  have n2: "subscript (JObj [(''id'', JNum 1), (''name'', JStr ''a/b/c''),
                            (''url'', JStr ''https://r/1'')]) ''name'' = Inr (JStr ''a/b/c'')"
    by simp
  have "insert_event (sample_env (one_page []) no_fault [])
     (sample_event ''1'' ''WatchEvent'' ''2024-03-01T00:00:00Z'' ''nobody'') sample_start =
     (Inr False, sample_start\<lparr>errors := errors sample_start + 1\<rparr>)"
    using name_without_separator_rejected [OF r1 n1] by simp
  moreover have "split_full_name (JStr ''a/b/c'') = Inr (''a'', ''b/c'')"
  proof -
    have "\<forall>own rest. ''a/b/c'' = own @ CHR ''/'' # rest \<and> CHR ''/'' \<notin> set own \<longrightarrow>
            split_full_name (JStr ''a/b/c'') = Inr (own, rest)"
      using name_without_separator_rejected [OF r2 n2] by blast
    then have "''a/b/c'' = ''a'' @ CHR ''/'' # ''b/c'' \<and> CHR ''/'' \<notin> set ''a'' \<longrightarrow>
            split_full_name (JStr ''a/b/c'') = Inr (''a'', ''b/c'')"
      by blast
    then show ?thesis by simp
  qed
  ultimately show ?thesis by blast
qed

text \<open>
  Claim C2 as stated fails for a name with two separators: the event is written, as
  owner \<^verbatim>\<open>a\<close> and repository \<^verbatim>\<open>b/c\<close>, and no error is counted.
\<close>

theorem two_separators_counterexample:
  "length (filter (\<lambda>c. c = CHR ''/'') ''a/b/c'') = 2
   \<and> insert_event (sample_env (one_page []) no_fault [])
       (sample_event ''1'' ''WatchEvent'' ''2024-03-01T00:00:00Z'' ''a/b/c'') sample_start =
     (Inr True,
      sample_start\<lparr>events_inserted := 1, db_ops := 1,
        working :=
          [\<lparr>event_id = JStr ''1'', event_type = JStr ''WatchEvent'',
            actor_login = JStr ''octocat'', repository_owner = ''a'',
            repository_name = ''b/c'',
            payload =
              JObj [(''action'', JStr ''started''),
                    (''actor'', JObj [(''id'', JNum 7), (''login'', JStr ''octocat''),
                                      (''avatar_url'', JStr ''https://a/7'')]),
                    (''repo'', JObj [(''id'', JNum 1), (''name'', JStr ''a/b/c''),
                                     (''url'', JStr ''https://r/1'')]),
                    (''public'', JBool True),
                    (''backfill_source'', JStr ''workspace_backfill''),
                    (''backfill_date'', JStr ''2024-03-10T00:00:00+00:00'')],
            created_at = JStr ''2024-03-01T00:00:00Z'', processed_at = None,
            processing_notes = Some ''Workspace backfill on 2024-03-10T00:00:00''\<rparr>]\<rparr>)"
  by (simp add: sample_defs writer_defs)

section \<open>What the cursor returns and counts\<close>

lemmas cursor_defs = get_repo_events_def loop_body_def requests_get_def on_forbidden_def
  on_success_def finish_def count_error_def sleep_def unix_seconds_def event_date_def
  try_bind_def replace_Z_def relevant_types_def

lemmas sample_event_defs = watch_new_def push_new_def watch_old_def

lemma scan_page_events:
  "\<forall>ev \<in> set acc. in_window e cutoff ev \<and> relevant ev \<Longrightarrow>
   \<forall>ev \<in> set (scan_events (scan_page e cutoff items acc)). in_window e cutoff ev \<and> relevant ev"
proof (induction items arbitrary: acc)
  case Nil
  then show ?case by simp
next
  case (Cons event rest)
  show ?case
  proof (cases "try_bind (event_date e event) (\<lambda>d. at_or_after d cutoff)")
    case (Inl err)
    with Cons.prems show ?thesis by simp
  next
    case (Inr inside)
    show ?thesis
    proof (cases inside)
      case False
      with Inr Cons.prems show ?thesis by simp
    next
      case True
      with Inr have win: "in_window e cutoff event"
        by (auto simp: in_window_def try_bind_def split: sum.splits datetime.splits)
      show ?thesis
      proof (cases "subscript event ''type''")
        case (Inl err)
        with Inr True Cons.prems show ?thesis by simp
      next
        case (Inr t)
        have "\<forall>ev \<in> set (if t \<in> set relevant_types then acc @ [event] else acc).
                in_window e cutoff ev \<and> relevant ev"
          using Cons.prems win Inr by (auto simp: relevant_def)
        from Cons.IH [OF this] show ?thesis
          using \<open>try_bind (event_date e event) (\<lambda>d. at_or_after d cutoff) = Inr inside\<close> True Inr
          by simp
      qed
    qed
  qed
qed

lemma cursor_frame_refl [simp]: "cursor_frame s s"
  by (simp add: cursor_frame_def)

lemma cursor_frame_trans: "cursor_frame s s1 \<Longrightarrow> cursor_frame s1 s2 \<Longrightarrow> cursor_frame s s2"
  by (simp add: cursor_frame_def)

lemma on_forbidden_frame: "cursor_frame s (turn_state (on_forbidden e resp events page s))"
  by (simp add: on_forbidden_def cursor_frame_def count_error_def sleep_def Let_def
      split: option.splits sum.splits)

lemma on_forbidden_events: "turn_events (on_forbidden e resp events page s) = events"
  by (simp add: on_forbidden_def Let_def split: option.splits sum.splits)

lemma on_success_frame: "cursor_frame s (turn_state (on_success e cutoff resp events page s))"
  by (simp add: on_success_def cursor_frame_def count_error_def sleep_def
      split: option.splits sum.splits scan.splits)

lemma turn_events_of_scan:
  "turn_events (case sc of
                  Raised err events' \<Rightarrow> Break events' s1
                | Cutoff events' \<Rightarrow> Return events' s2
                | Completed events' \<Rightarrow> Continue events' page s3) = scan_events sc"
  by (cases sc) simp_all

lemma on_success_events:
  assumes "\<forall>ev \<in> set events. in_window e cutoff ev \<and> relevant ev"
  shows "\<forall>ev \<in> set (turn_events (on_success e cutoff resp events page s)).
           in_window e cutoff ev \<and> relevant ev"
proof (cases "body resp")
  case None
  with assms show ?thesis by (simp add: on_success_def)
next
  case (Some page_events)
  show ?thesis
  proof (cases "iter_json page_events")
    case (Inl err)
    with Some assms show ?thesis by (simp add: on_success_def)
  next
    case (Inr items)
    from assms have "\<forall>ev \<in> set (scan_events (scan_page e cutoff items events)).
           in_window e cutoff ev \<and> relevant ev"
      by (rule scan_page_events)
    with Some Inr assms show ?thesis
      by (simp add: on_success_def turn_events_of_scan)
  qed
qed

lemma loop_body_raises:
  "feed e (length (request_log s)) own nam page = Raises err \<Longrightarrow>
   loop_body e own nam cutoff events page s =
     Break events (count_error (s\<lparr>request_log := (own, nam, page) # request_log s\<rparr>))"
  by (simp add: loop_body_def requests_get_def)

lemma loop_body_response:
  "feed e (length (request_log s)) own nam page = Response code hdr b \<Longrightarrow>
   loop_body e own nam cutoff events page s =
     (let s2 = s\<lparr>request_log := (own, nam, page) # request_log s,
                 api_calls := api_calls s + 1\<rparr> in
      if code = 404 then Break events s2
      else if code = 403 then on_forbidden e (Response code hdr b) events page s2
      else if code \<noteq> 200 then Break events s2
      else on_success e cutoff (Response code hdr b) events page s2)"
  by (simp add: loop_body_def requests_get_def Let_def)

lemma on_forbidden_fetched:
  "events_fetched (turn_state (on_forbidden e resp events page s)) = events_fetched s"
  by (simp add: on_forbidden_def count_error_def sleep_def Let_def
      split: option.splits sum.splits)

lemma on_success_fetched:
  "events_fetched (turn_state (on_success e cutoff resp events page s)) = events_fetched s"
  by (simp add: on_success_def count_error_def sleep_def
      split: option.splits sum.splits scan.splits)

lemma loop_body_frame: "cursor_frame s (turn_state (loop_body e own nam cutoff events page s))"
proof (cases "feed e (length (request_log s)) own nam page")
  case (Raises err)
  then show ?thesis
    by (simp add: loop_body_raises cursor_frame_def count_error_def)
next
  case (Response code hdr b)
  let ?s2 = "s\<lparr>request_log := (own, nam, page) # request_log s, api_calls := api_calls s + 1\<rparr>"
  have req: "cursor_frame s ?s2"
    by (simp add: cursor_frame_def)
  have "\<And>resp. cursor_frame s (turn_state (on_forbidden e resp events page ?s2))"
    using req on_forbidden_frame by (rule cursor_frame_trans)
  moreover have "\<And>resp. cursor_frame s (turn_state (on_success e cutoff resp events page ?s2))"
    using req on_success_frame by (rule cursor_frame_trans)
  ultimately show ?thesis
    using req by (simp add: loop_body_response [OF Response] Let_def)
qed

lemma loop_body_fetched:
  "events_fetched (turn_state (loop_body e own nam cutoff events page s)) = events_fetched s"
proof (cases "feed e (length (request_log s)) own nam page")
  case (Raises err)
  then show ?thesis
    by (simp add: loop_body_raises count_error_def)
next
  case (Response code hdr b)
  then show ?thesis
    by (simp add: loop_body_response [OF Response] Let_def on_forbidden_fetched
        on_success_fetched)
qed

lemma loop_body_events:
  assumes "\<forall>ev \<in> set events. in_window e cutoff ev \<and> relevant ev"
  shows "\<forall>ev \<in> set (turn_events (loop_body e own nam cutoff events page s)).
           in_window e cutoff ev \<and> relevant ev"
proof (cases "feed e (length (request_log s)) own nam page")
  case (Raises err)
  with assms show ?thesis by (simp add: loop_body_raises)
next
  case (Response code hdr b)
  with assms on_success_events [OF assms] show ?thesis
    by (simp add: loop_body_response [OF Response] Let_def on_forbidden_events)
qed

text \<open>
  Induction over the turns of a run of the \<^verbatim>\<open>while\<close> loop that returns.
\<close>

lemma paging_induct [consumes 1, case_names beyond continue break return]:
  assumes run: "paging e own nam cutoff acc page s = Some r"
    and beyond: "\<And>events page s. \<not> page \<le> 10 \<Longrightarrow> P events page s (finish events s)"
    and continue: "\<And>events page s events' page' s' r.
        page \<le> 10 \<Longrightarrow> loop_body e own nam cutoff events page s = Continue events' page' s' \<Longrightarrow>
        P events' page' s' r \<Longrightarrow> P events page s r"
    and break: "\<And>events page s events' s'.
        page \<le> 10 \<Longrightarrow> loop_body e own nam cutoff events page s = Break events' s' \<Longrightarrow>
        P events page s (finish events' s')"
    and return: "\<And>events page s events' s'.
        page \<le> 10 \<Longrightarrow> loop_body e own nam cutoff events page s = Return events' s' \<Longrightarrow>
        P events page s (finish events' s')"
  shows "P acc page s r"
proof -
  let ?Q = "\<lambda>e' own' nam' cutoff' events page s r.
              e' = e \<and> own' = own \<and> nam' = nam \<and> cutoff' = cutoff \<longrightarrow> P events page s r"
  have "?Q e own nam cutoff acc page s r"
  proof (rule paging.raw_induct [where P = ?Q, OF _ run])
    fix f e' own' nam' cutoff' events page s r
    assume ih: "\<And>e' own' nam' cutoff' events page s r.
                  f e' own' nam' cutoff' events page s = Some r \<Longrightarrow>
                  ?Q e' own' nam' cutoff' events page s r"
      and step: "(if page \<le> 10
          then case loop_body e' own' nam' cutoff' events page s of
                 Continue events' page' s' \<Rightarrow> f e' own' nam' cutoff' events' page' s'
               | Break events' s' \<Rightarrow> Some (finish events' s')
               | Return events' s' \<Rightarrow> Some (finish events' s')
          else Some (finish events s)) = Some r"
    show "?Q e' own' nam' cutoff' events page s r"
    proof
      assume same: "e' = e \<and> own' = own \<and> nam' = nam \<and> cutoff' = cutoff"
      show "P events page s r"
      proof (cases "page \<le> 10")
        case False
        with step have "r = finish events s" by simp
        with False show ?thesis by (simp add: beyond)
      next
        case True
        show ?thesis
        proof (cases "loop_body e own nam cutoff events page s")
          case (Continue events' page' s')
          with step True same have "f e own nam cutoff events' page' s' = Some r" by simp
          from ih [OF this] have "P events' page' s' r" by simp
          with True Continue show ?thesis by (rule continue)
        next
          case (Break events' s')
          with step True same have "r = finish events' s'" by simp
          with True Break show ?thesis by (simp add: break)
        next
          case (Return events' s')
          with step True same have "r = finish events' s'" by simp
          with True Return show ?thesis by (simp add: return)
        qed
      qed
    qed
  qed
  then show ?thesis by simp
qed

lemma paging_result:
  assumes "paging e own nam cutoff acc page s = Some r"
    and "\<forall>ev \<in> set acc. in_window e cutoff ev \<and> relevant ev"
  shows "(\<forall>ev \<in> set (fst r). in_window e cutoff ev \<and> relevant ev)
         \<and> events_fetched (snd r) = events_fetched s + length (fst r)
         \<and> cursor_frame s (snd r)"
  using assms
proof (induction acc page s r rule: paging_induct)
  case (beyond events page s)
  then show ?case by (simp add: finish_def cursor_frame_def)
next
  case (continue events page s events' page' s' r)
  let ?t = "loop_body e own nam cutoff events page s"
  from continue.prems have "\<forall>ev \<in> set (turn_events ?t). in_window e cutoff ev \<and> relevant ev"
    by (rule loop_body_events)
  with continue.hyps have "\<forall>ev \<in> set events'. in_window e cutoff ev \<and> relevant ev"
    by simp
  then have ih: "(\<forall>ev \<in> set (fst r). in_window e cutoff ev \<and> relevant ev)
         \<and> events_fetched (snd r) = events_fetched s' + length (fst r)
         \<and> cursor_frame s' (snd r)"
    by (rule continue.IH)
  have "cursor_frame s (turn_state ?t)" "events_fetched (turn_state ?t) = events_fetched s"
    by (rule loop_body_frame, rule loop_body_fetched)
  with continue.hyps have "cursor_frame s s'" "events_fetched s' = events_fetched s"
    by simp_all
  with ih show ?case
    using cursor_frame_trans by simp
next
  case (break events page s events' s')
  let ?t = "loop_body e own nam cutoff events page s"
  from break.prems have "\<forall>ev \<in> set (turn_events ?t). in_window e cutoff ev \<and> relevant ev"
    by (rule loop_body_events)
  moreover have "cursor_frame s (turn_state ?t)" "events_fetched (turn_state ?t) = events_fetched s"
    by (rule loop_body_frame, rule loop_body_fetched)
  ultimately show ?case
    using break.hyps by (simp add: finish_def cursor_frame_def)
next
  case (return events page s events' s')
  let ?t = "loop_body e own nam cutoff events page s"
  from return.prems have "\<forall>ev \<in> set (turn_events ?t). in_window e cutoff ev \<and> relevant ev"
    by (rule loop_body_events)
  moreover have "cursor_frame s (turn_state ?t)" "events_fetched (turn_state ?t) = events_fetched s"
    by (rule loop_body_frame, rule loop_body_fetched)
  ultimately show ?case
    using return.hyps by (simp add: finish_def cursor_frame_def)
qed

text \<open>
  Claim C10. When \<^verbatim>\<open>get_repo_events\<close> returns, the counter \<^verbatim>\<open>events_fetched\<close> has grown
  by the length of the list returned, and every event of that list has a timestamp at or
  after the cutoff and a type of the allowed set: a record dropped for its date or its
  type is not in the list and is not counted.
\<close>

theorem events_fetched_counts_retained:
  assumes "get_repo_events e own nam days_back s = Some (events, s')"
  shows "events_fetched s' = events_fetched s + length events
       \<and> (\<forall>ev \<in> set events.
             in_window e (clock s - days_back * 86400000000) ev \<and> relevant ev)"
proof -
  from assms have "paging e own nam (clock s - days_back * 86400000000) [] 1 s = Some (events, s')"
    by (simp add: get_repo_events_def)
  from paging_result [OF this] show ?thesis by simp
qed

text \<open>
  The sample: a page with a watch event and a push event of 1 March and a watch event of
  1 January. One event is returned, and counted.
\<close>

theorem events_fetched_counts_retained_witness:
  "get_repo_events (sample_env (one_page [watch_new, push_new, watch_old]) no_fault [])
     ''a'' ''b'' 30 sample_start =
     Some ([watch_new],
           sample_start\<lparr>request_log := [(''a'', ''b'', 1)], api_calls := 1,
                          events_fetched := 1\<rparr>)
   \<and> events_fetched (sample_start\<lparr>request_log := [(''a'', ''b'', 1)], api_calls := 1,
                                   events_fetched := 1\<rparr>) =
       events_fetched sample_start + length [watch_new]
   \<and> in_window (sample_env (one_page [watch_new, push_new, watch_old]) no_fault [])
           (clock sample_start - 30 * 86400000000) watch_new
   \<and> relevant watch_new"
proof -
  have run: "get_repo_events (sample_env (one_page [watch_new, push_new, watch_old]) no_fault [])
     ''a'' ''b'' 30 sample_start =
     Some ([watch_new],
           sample_start\<lparr>request_log := [(''a'', ''b'', 1)], api_calls := 1,
                          events_fetched := 1\<rparr>)"
    by (simp add: paging.simps cursor_defs sample_defs sample_event_defs)
  from events_fetched_counts_retained [OF run] run show ?thesis by simp
qed

section \<open>The counter of processed repositories\<close>

lemma db_call_processed: "repos_processed (snd (db_call e s)) = repos_processed s"
  by (simp add: db_call_def)

lemma commit_processed: "repos_processed (snd (commit e s)) = repos_processed s"
  by (simp add: commit_def db_call_def split: option.splits)

lemma rollback_processed: "repos_processed (snd (rollback e s)) = repos_processed s"
  by (simp add: rollback_def db_call_def)

lemma insert_event_processed: "repos_processed (snd (insert_event e event s)) = repos_processed s"
  by (simp add: insert_event_def insert_error_def execute_upsert_def db_call_def count_error_def
      split: sum.splits option.splits)

lemma insert_turn_processed: "repos_processed (snd (insert_turn e event s)) = repos_processed s"
proof -
  obtain ok s1 where ie: "insert_event e event s = (ok, s1)"
    by (cases "insert_event e event s")
  then have p1: "repos_processed s1 = repos_processed s"
    using insert_event_processed [of e event s] by simp
  obtain c s2 where co: "commit e s1 = (c, s2)"
    by (cases "commit e s1")
  then have p2: "repos_processed s2 = repos_processed s1"
    using commit_processed [of e s1] by simp
  obtain b s3 where rb: "rollback e s1 = (b, s3)"
    by (cases "rollback e s1")
  then have p3: "repos_processed s3 = repos_processed s1"
    using rollback_processed [of e s1] by simp
  show ?thesis
    using ie co rb p1 p2 p3 rollback_processed [of e s2] rollback_processed [of e s3]
    by (cases ok; cases c; cases b) (auto simp: insert_turn_def split: bool.splits)
qed

lemma insert_all_processed: "repos_processed (snd (insert_all e events s)) = repos_processed s"
proof (induction events arbitrary: s)
  case Nil
  then show ?case by simp
next
  case (Cons event rest)
  obtain r s1 where t: "insert_turn e event s = (r, s1)"
    by (cases "insert_turn e event s")
  then have "repos_processed s1 = repos_processed s"
    using insert_turn_processed [of e event s] by simp
  with t Cons.IH [of s1] show ?case
    by (simp split: option.splits)
qed

lemma get_repo_events_frame:
  assumes "get_repo_events e own nam days_back s = Some (events, s1)"
  shows "cursor_frame s s1"
proof -
  from assms have "paging e own nam (clock s - days_back * 86400000000) [] 1 s = Some (events, s1)"
    by (simp add: get_repo_events_def)
  from paging_result [OF this] show ?thesis by simp
qed

text \<open>
  Claim C9. When the cursor returns, \<^verbatim>\<open>backfill_repository\<close> returns too. If the list of
  events is empty it returns at once, in the state the cursor left, and the counter
  \<^verbatim>\<open>repos_processed\<close> is as before. The counter goes up, by one, only for a
  repository with at least one retained event (and whose writes let no exception out).
\<close>

theorem repos_processed_counts_nonempty:
  assumes "get_repo_events e own nam backfill_days s = Some (events, s1)"
  shows "\<exists>r s'. backfill_repository e own nam ws s = Some (r, s')
           \<and> (events = [] \<longrightarrow> r = None \<and> s' = s1)
           \<and> repos_processed s' =
               repos_processed s + (if events \<noteq> [] \<and> r = None then 1 else 0)"
proof -
  from assms have "cursor_frame s s1" by (rule get_repo_events_frame)
  then have same: "repos_processed s1 = repos_processed s"
    by (simp add: cursor_frame_def)
  show ?thesis
  proof (cases "events = []")
    case True
    with assms same show ?thesis by (simp add: backfill_repository_def)
  next
    case False
    obtain r s2 where ia: "insert_all e events s1 = (r, s2)"
      by (cases "insert_all e events s1")
    then have "repos_processed s2 = repos_processed s1"
      using insert_all_processed [of e events s1] by simp
    with assms same False ia show ?thesis
      by (cases r) (simp_all add: backfill_repository_def)
  qed
qed

text \<open>
  The sample: a repository whose only recent event is a push event. The cursor returns
  no event and the repository is not counted.
\<close>

theorem repos_processed_counts_nonempty_witness:
  "get_repo_events (sample_env (one_page [push_new, watch_old]) no_fault []) ''a'' ''b''
     backfill_days sample_start =
     Some ([], sample_start\<lparr>request_log := [(''a'', ''b'', 1)], api_calls := 1\<rparr>)
   \<and> backfill_repository (sample_env (one_page [push_new, watch_old]) no_fault []) ''a'' ''b''
       ''w'' sample_start =
     Some (None, sample_start\<lparr>request_log := [(''a'', ''b'', 1)], api_calls := 1\<rparr>)
   \<and> repos_processed (sample_start\<lparr>request_log := [(''a'', ''b'', 1)], api_calls := 1\<rparr>) =
       repos_processed sample_start"
proof -
  let ?e = "sample_env (one_page [push_new, watch_old]) no_fault []"
  let ?s1 = "sample_start\<lparr>request_log := [(''a'', ''b'', 1)], api_calls := 1\<rparr>"
  have run: "get_repo_events ?e ''a'' ''b'' backfill_days sample_start = Some ([], ?s1)"
    by (simp add: paging.simps cursor_defs sample_defs sample_event_defs backfill_days_def)
  from repos_processed_counts_nonempty [OF run, of "''w''"]
  obtain r s' where "backfill_repository ?e ''a'' ''b'' ''w'' sample_start = Some (r, s')"
    and "r = None \<and> s' = ?s1"
    and "repos_processed s' = repos_processed sample_start + (if [] \<noteq> ([]::json list) \<and> r = None then 1 else 0)"
    by auto
  with run show ?thesis by simp
qed

section \<open>The answer to a forbidden or rate-limited request\<close>

lemma paging_turn:
  "page \<le> 10 \<Longrightarrow>
   paging e own nam cutoff events page s =
     (case loop_body e own nam cutoff events page s of
        Continue events' page' s' \<Rightarrow> paging e own nam cutoff events' page' s'
      | Break events' s' \<Rightarrow> Some (finish events' s')
      | Return events' s' \<Rightarrow> Some (finish events' s'))"
  by (subst paging.simps) simp


lemma unix_seconds_sleep:
  assumes "0 \<le> clock s" and "0 \<le> w"
  shows "unix_seconds (sleep (w * 1000000) s) = unix_seconds s + w"
proof -
  have "(clock s + w * 1000000) div 1000000 = clock s div 1000000 + w"
    by simp
  with assms show ?thesis
    by (simp add: unix_seconds_def sleep_def)
qed

text \<open>
  Claim C4, as the code has it. A page request answered with status 403 is counted as an
  API call. Without the header \<^verbatim>\<open>X-RateLimit-Reset\<close> the loop ends and the function
  returns the events collected so far; if \<^verbatim>\<open>int\<close> rejects the header the same
  happens and an error is counted. Otherwise the time to sleep is
  \<^verbatim>\<open>max(0, reset - now + 60)\<close> seconds: if it is less than 3600 the function sleeps that
  long (with the clock at or after the epoch it wakes no earlier than 60 seconds after
  the reset time) and goes on with the same page number and the same events; if it is
  3600 or more the loop ends and the function returns the events collected so far.
\<close>

theorem forbidden_response_handling:
  assumes "page \<le> 10"
    and "feed e (length (request_log s)) own nam page = Response 403 hdr b"
    and "s2 = s\<lparr>request_log := (own, nam, page) # request_log s, api_calls := api_calls s + 1\<rparr>"
  shows "(hdr = None \<longrightarrow> paging e own nam cutoff events page s = Some (finish events s2))
       \<and> (\<forall>h err. hdr = Some h \<and> py_int e h = Inl err \<longrightarrow>
             paging e own nam cutoff events page s = Some (finish events (count_error s2)))
       \<and> (\<forall>h reset. hdr = Some h \<and> py_int e h = Inr reset \<longrightarrow>
             (let wait_time = max 0 (reset - unix_seconds s + 60) in
              if wait_time < 3600
              then paging e own nam cutoff events page s =
                     paging e own nam cutoff events page (sleep (wait_time * 1000000) s2)
                 \<and> (0 \<le> clock s \<longrightarrow>
                      reset + 60 \<le> unix_seconds (sleep (wait_time * 1000000) s2))
              else paging e own nam cutoff events page s = Some (finish events s2)))"
proof -
  have now: "unix_seconds s2 = unix_seconds s"
    using assms(3) by (simp add: unix_seconds_def)
  have body: "loop_body e own nam cutoff events page s =
              on_forbidden e (Response 403 hdr b) events page s2"
    using assms(3) by (simp add: loop_body_response [OF assms(2)])
  have a: "hdr = None \<longrightarrow> paging e own nam cutoff events page s = Some (finish events s2)"
    using assms(1) body by (simp add: paging_turn on_forbidden_def)
  have b: "\<forall>h err. hdr = Some h \<and> py_int e h = Inl err \<longrightarrow>
             paging e own nam cutoff events page s = Some (finish events (count_error s2))"
    using assms(1) body by (simp add: paging_turn on_forbidden_def)
  have c: "\<forall>h reset. hdr = Some h \<and> py_int e h = Inr reset \<longrightarrow>
             (let wait_time = max 0 (reset - unix_seconds s + 60) in
              if wait_time < 3600
              then paging e own nam cutoff events page s =
                     paging e own nam cutoff events page (sleep (wait_time * 1000000) s2)
                 \<and> (0 \<le> clock s \<longrightarrow>
                      reset + 60 \<le> unix_seconds (sleep (wait_time * 1000000) s2))
              else paging e own nam cutoff events page s = Some (finish events s2))"
  proof (intro allI impI)
    fix h reset
    assume hr: "hdr = Some h \<and> py_int e h = Inr reset"
    let ?w = "max 0 (reset - unix_seconds s + 60)"
    have turn: "loop_body e own nam cutoff events page s =
          (if ?w < 3600 then Continue events page (sleep (?w * 1000000) s2) else Break events s2)"
      using hr body now by (simp add: on_forbidden_def Let_def)
    have wake: "0 \<le> clock s \<longrightarrow> reset + 60 \<le> unix_seconds (sleep (?w * 1000000) s2)"
    proof
      assume "0 \<le> clock s"
      then have "0 \<le> clock s2" using assms(3) by simp
      then have "unix_seconds (sleep (?w * 1000000) s2) = unix_seconds s2 + ?w"
        by (rule unix_seconds_sleep) simp
      with now show "reset + 60 \<le> unix_seconds (sleep (?w * 1000000) s2)"
        by simp
    qed
    show "let wait_time = max 0 (reset - unix_seconds s + 60) in
              if wait_time < 3600
              then paging e own nam cutoff events page s =
                     paging e own nam cutoff events page (sleep (wait_time * 1000000) s2)
                 \<and> (0 \<le> clock s \<longrightarrow>
                      reset + 60 \<le> unix_seconds (sleep (wait_time * 1000000) s2))
              else paging e own nam cutoff events page s = Some (finish events s2)"
    proof (cases "?w < 3600")
      case True
      with turn assms(1) have "paging e own nam cutoff events page s =
                     paging e own nam cutoff events page (sleep (?w * 1000000) s2)"
        by (simp add: paging_turn)
      with True wake show ?thesis by (simp add: Let_def)
    next
      case False
      with turn assms(1) have "paging e own nam cutoff events page s = Some (finish events s2)"
        by (simp add: paging_turn)
      with False show ?thesis by (simp add: Let_def)
    qed
  qed
  from a b c show ?thesis by blast
qed

text \<open>
  The sample: status 403 with a reset time 30 seconds ahead. The function sleeps 90
  seconds and asks for page 1 again.
\<close>

theorem forbidden_response_handling_witness:
  "(1::nat) \<le> 10
   \<and> feed (sample_env (retry_feed 1 ''1710028830'') no_fault [])
        (length (request_log sample_start)) ''a'' ''b'' 1 =
      Response 403 (Some ''1710028830'') None
   \<and> py_int (sample_env (retry_feed 1 ''1710028830'') no_fault []) ''1710028830'' =
      Inr 1710028830
   \<and> 0 \<le> clock sample_start
   \<and> paging (sample_env (retry_feed 1 ''1710028830'') no_fault []) ''a'' ''b'' 1707436800000000 [] 1
        sample_start =
      paging (sample_env (retry_feed 1 ''1710028830'') no_fault []) ''a'' ''b'' 1707436800000000 [] 1
        (sleep 90000000
           (sample_start\<lparr>request_log := [(''a'', ''b'', 1)], api_calls := 1\<rparr>))
   \<and> (1710028830::int) + 60 \<le>
        unix_seconds (sleep 90000000
           (sample_start\<lparr>request_log := [(''a'', ''b'', 1)], api_calls := 1\<rparr>))"
proof -
  let ?e = "sample_env (retry_feed 1 ''1710028830'') no_fault []"
  let ?s2 = "sample_start\<lparr>request_log := (''a'', ''b'', 1) # request_log sample_start,
                          api_calls := api_calls sample_start + 1\<rparr>"
  have page: "(1::nat) \<le> 10" by simp
  have resp: "feed ?e (length (request_log sample_start)) ''a'' ''b'' 1 =
              Response 403 (Some ''1710028830'') None"
    by (simp add: sample_defs retry_feed_def)
  have hdr: "py_int ?e ''1710028830'' = Inr 1710028830"
    by (simp add: sample_defs)
  have clk: "0 \<le> clock sample_start"
    by (simp add: sample_defs)
  have now: "unix_seconds sample_start = 1710028800"
    by (simp add: unix_seconds_def sample_defs)
  have s2: "?s2 = sample_start\<lparr>request_log := [(''a'', ''b'', 1)], api_calls := 1\<rparr>"
    by (simp add: sample_defs)
  from forbidden_response_handling [OF page resp refl, of 1707436800000000 "[]"]
  have "\<forall>h reset. Some ''1710028830'' = Some h \<and> py_int ?e h = Inr reset \<longrightarrow>
             (let wait_time = max 0 (reset - unix_seconds sample_start + 60) in
              if wait_time < 3600
              then paging ?e ''a'' ''b'' 1707436800000000 [] 1 sample_start =
                     paging ?e ''a'' ''b'' 1707436800000000 [] 1 (sleep (wait_time * 1000000) ?s2)
                 \<and> (0 \<le> clock sample_start \<longrightarrow>
                      reset + 60 \<le> unix_seconds (sleep (wait_time * 1000000) ?s2))
              else paging ?e ''a'' ''b'' 1707436800000000 [] 1 sample_start = Some (finish [] ?s2))"
    by blast
  then have "let wait_time = max 0 (1710028830 - unix_seconds sample_start + 60) in
              if wait_time < 3600
              then paging ?e ''a'' ''b'' 1707436800000000 [] 1 sample_start =
                     paging ?e ''a'' ''b'' 1707436800000000 [] 1 (sleep (wait_time * 1000000) ?s2)
                 \<and> (0 \<le> clock sample_start \<longrightarrow>
                      1710028830 + 60 \<le> unix_seconds (sleep (wait_time * 1000000) ?s2))
              else paging ?e ''a'' ''b'' 1707436800000000 [] 1 sample_start = Some (finish [] ?s2)"
    using hdr by blast
  then have "paging ?e ''a'' ''b'' 1707436800000000 [] 1 sample_start =
               paging ?e ''a'' ''b'' 1707436800000000 [] 1 (sleep 90000000 ?s2)
           \<and> (1710028830::int) + 60 \<le> unix_seconds (sleep 90000000 ?s2)"
    using clk by (simp add: now Let_def)
  with page resp hdr clk show ?thesis
    unfolding s2 by blast
qed

text \<open>
  Claim C4 as stated fails when the reset time is less than an hour ahead but less than
  a minute short of it: with the reset 3570 seconds ahead the time to sleep is 3630
  seconds, and the function returns after its one request, without sleeping.
\<close>

theorem wait_within_hour_counterexample:
  "rate_limit_reset (feed (sample_env (retry_feed 1 ''1710032370'') no_fault []) 0 ''a'' ''b'' 1)
     = Some ''1710032370''
   \<and> py_int (sample_env (retry_feed 1 ''1710032370'') no_fault []) ''1710032370'' =
       Inr (unix_seconds sample_start + 3570)
   \<and> (3570::int) \<le> 3600
   \<and> get_repo_events (sample_env (retry_feed 1 ''1710032370'') no_fault []) ''a'' ''b'' 30
       sample_start =
     Some ([], sample_start\<lparr>request_log := [(''a'', ''b'', 1)], api_calls := 1\<rparr>)"
  by (simp add: paging.simps cursor_defs sample_defs retry_feed_def)

section \<open>Retries without bound\<close>

lemma loop_body_retry:
  assumes "feed e (length (request_log s)) own nam page = Response 403 (Some h) b"
    and "py_int e h = Inr reset"
    and "reset - unix_seconds s + 60 < 3600"
  shows "loop_body e own nam cutoff events page s =
         Continue events page
           (sleep (max 0 (reset - unix_seconds s + 60) * 1000000) (answered own nam page s))"
proof -
  have "unix_seconds (answered own nam page s) = unix_seconds s"
    by (simp add: unix_seconds_def answered_def)
  with assms(2,3) show ?thesis
    by (simp add: loop_body_response [OF assms(1)] on_forbidden_def answered_def Let_def)
qed

lemma retry_ready_step:
  assumes "retry_ready reset s"
  shows "retry_ready reset
           (sleep (max 0 (reset - unix_seconds s + 60) * 1000000) (answered own nam page s))"
proof -
  let ?w = "max 0 (reset - unix_seconds s + 60)"
  let ?s2 = "answered own nam page s"
  from assms have clk: "0 \<le> clock ?s2"
    by (simp add: retry_ready_def answered_def)
  have now: "unix_seconds ?s2 = unix_seconds s"
    by (simp add: unix_seconds_def answered_def)
  have "unix_seconds (sleep (?w * 1000000) ?s2) = unix_seconds ?s2 + ?w"
    using clk by (rule unix_seconds_sleep) simp
  with now assms have "reset - unix_seconds (sleep (?w * 1000000) ?s2) + 60 < 3600"
    by (simp add: retry_ready_def)
  moreover from clk have "0 \<le> clock (sleep (?w * 1000000) ?s2)"
    by (simp add: sleep_def)
  ultimately show ?thesis by (simp add: retry_ready_def)
qed

lemma retry_many:
  "retry_ready reset s \<Longrightarrow> page \<le> 10 \<Longrightarrow> py_int e h = Inr reset \<Longrightarrow>
   \<forall>i<k. \<exists>b. feed e (length (request_log s) + i) own nam page = Response 403 (Some h) b \<Longrightarrow>
   \<exists>s'. paging e own nam cutoff events page s = paging e own nam cutoff events page s'
        \<and> api_calls s' = api_calls s + k
        \<and> request_log s' = replicate k (own, nam, page) @ request_log s"
proof (induction k arbitrary: s)
  case 0
  show ?case by (rule exI [of _ s]) simp
next
  case (Suc k)
  let ?s1 = "sleep (max 0 (reset - unix_seconds s + 60) * 1000000) (answered own nam page s)"
  from Suc.prems(4) obtain b
    where first: "feed e (length (request_log s)) own nam page = Response 403 (Some h) b"
    by force
  from Suc.prems(1) have small: "reset - unix_seconds s + 60 < 3600"
    by (simp add: retry_ready_def)
  have turn: "loop_body e own nam cutoff events page s = Continue events page ?s1"
    using first Suc.prems(3) small by (rule loop_body_retry)
  with Suc.prems(2) have one: "paging e own nam cutoff events page s =
                               paging e own nam cutoff events page ?s1"
    by (simp add: paging_turn)
  have ready: "retry_ready reset ?s1"
    using Suc.prems(1) by (rule retry_ready_step)
  have log1: "request_log ?s1 = (own, nam, page) # request_log s"
    and calls1: "api_calls ?s1 = api_calls s + 1"
    by (simp_all add: sleep_def answered_def)
  have rest: "\<forall>i<k. \<exists>b. feed e (length (request_log ?s1) + i) own nam page =
                          Response 403 (Some h) b"
  proof (intro allI impI)
    fix i
    assume "i < k"
    then have "Suc i < Suc k" by simp
    with Suc.prems(4) have "\<exists>b. feed e (length (request_log s) + Suc i) own nam page =
                                Response 403 (Some h) b"
      by blast
    then show "\<exists>b. feed e (length (request_log ?s1) + i) own nam page = Response 403 (Some h) b"
      by (simp add: log1)
  qed
  from Suc.IH [OF ready Suc.prems(2) Suc.prems(3) rest]
  obtain s' where "paging e own nam cutoff events page ?s1 = paging e own nam cutoff events page s'"
    and "api_calls s' = api_calls ?s1 + k"
    and "request_log s' = replicate k (own, nam, page) @ request_log ?s1"
    by blast
  with one log1 calls1
  have "paging e own nam cutoff events page s = paging e own nam cutoff events page s'
        \<and> api_calls s' = api_calls s + Suc k
        \<and> request_log s' = replicate (Suc k) (own, nam, page) @ request_log s"
    by (simp add: replicate_app_Cons_same)
  then show ?case by blast
qed

lemma retry_forever:
  assumes run: "paging e own nam cutoff events page s = Some r"
    and "py_int e h = Inr reset"
  shows "page \<le> 10 \<Longrightarrow> retry_ready reset s \<Longrightarrow>
         (\<forall>i. \<exists>b. feed e (length (request_log s) + i) own nam page = Response 403 (Some h) b) \<Longrightarrow>
         False"
  using run
proof (induction events page s r rule: paging_induct)
  case (beyond events page s)
  then show ?case by simp
next
  case (continue events page s events' page' s' r)
  let ?s1 = "sleep (max 0 (reset - unix_seconds s + 60) * 1000000) (answered own nam page s)"
  from continue.prems(3)
  have "\<exists>b. feed e (length (request_log s) + 0) own nam page = Response 403 (Some h) b"
    by (rule spec)
  then obtain b
    where first: "feed e (length (request_log s)) own nam page = Response 403 (Some h) b"
    by auto
  from continue.prems(2) have small: "reset - unix_seconds s + 60 < 3600"
    by (simp add: retry_ready_def)
  have "loop_body e own nam cutoff events page s = Continue events page ?s1"
    using first assms(2) small by (rule loop_body_retry)
  with continue.hyps(2) have same: "page' = page" "s' = ?s1"
    by auto
  have ready: "retry_ready reset s'"
    unfolding same using continue.prems(2) by (rule retry_ready_step)
  have "\<forall>i. \<exists>b. feed e (length (request_log s') + i) own nam page' = Response 403 (Some h) b"
  proof
    fix i
    from continue.prems(3)
    have "\<exists>b. feed e (length (request_log s) + Suc i) own nam page = Response 403 (Some h) b"
      by blast
    then show "\<exists>b. feed e (length (request_log s') + i) own nam page' = Response 403 (Some h) b"
      by (simp add: same sleep_def answered_def)
  qed
  moreover from continue.hyps(1) same(1) have "page' \<le> 10" by simp
  ultimately show ?case using ready continue.IH by blast
next
  case (break events page s events' s')
  from break.prems(3)
  have "\<exists>b. feed e (length (request_log s) + 0) own nam page = Response 403 (Some h) b"
    by (rule spec)
  then obtain b
    where first: "feed e (length (request_log s)) own nam page = Response 403 (Some h) b"
    by auto
  from break.prems(2) have small: "reset - unix_seconds s + 60 < 3600"
    by (simp add: retry_ready_def)
  from loop_body_retry [OF first assms(2) small, of cutoff events] break.hyps(2)
  show ?case by simp
next
  case (return events page s events' s')
  from return.prems(3)
  have "\<exists>b. feed e (length (request_log s) + 0) own nam page = Response 403 (Some h) b"
    by (rule spec)
  then obtain b
    where first: "feed e (length (request_log s)) own nam page = Response 403 (Some h) b"
    by auto
  from return.prems(2) have small: "reset - unix_seconds s + 60 < 3600"
    by (simp add: retry_ready_def)
  from loop_body_retry [OF first assms(2) small, of cutoff events] return.hyps(2)
  show ?case by simp
qed

text \<open>
  Claim C8. Let the header of a 403 answer give a reset time that \<^verbatim>\<open>int\<close> reads and
  that is less than 3540 seconds ahead (so that the sleep, margin included, is under an
  hour). If the feed gives that answer to the next \<open>k\<close> requests for a page, the loop
  makes those \<open>k\<close> requests, all for the same page, counts \<open>k\<close> API calls and is then
  where it was, whatever \<open>k\<close> is: the cap of 10 is on the page number and not on the
  number of requests. If the feed gives that answer to every request, the function
  never returns.
\<close>

theorem retries_not_bounded_by_page_cap:
  assumes "page \<le> 10" and "py_int e h = Inr reset" and "retry_ready reset s"
  shows "(\<forall>k. (\<forall>i<k. \<exists>b. feed e (length (request_log s) + i) own nam page =
                         Response 403 (Some h) b) \<longrightarrow>
              (\<exists>s'. paging e own nam cutoff events page s =
                      paging e own nam cutoff events page s'
                   \<and> api_calls s' = api_calls s + k
                   \<and> request_log s' = replicate k (own, nam, page) @ request_log s))
       \<and> ((\<forall>i. \<exists>b. feed e (length (request_log s) + i) own nam page =
                      Response 403 (Some h) b) \<longrightarrow>
            paging e own nam cutoff events page s = None)"
proof (intro conjI allI impI)
  fix k
  assume "\<forall>i<k. \<exists>b. feed e (length (request_log s) + i) own nam page = Response 403 (Some h) b"
  with assms(3) assms(1) assms(2)
  show "\<exists>s'. paging e own nam cutoff events page s = paging e own nam cutoff events page s'
           \<and> api_calls s' = api_calls s + k
           \<and> request_log s' = replicate k (own, nam, page) @ request_log s"
    by (rule retry_many)
next
  assume always: "\<forall>i. \<exists>b. feed e (length (request_log s) + i) own nam page =
                          Response 403 (Some h) b"
  show "paging e own nam cutoff events page s = None"
  proof (cases "paging e own nam cutoff events page s")
    case None
    then show ?thesis .
  next
    case (Some r)
    from retry_forever [OF Some assms(2) assms(1) assms(3) always]
    show ?thesis by simp
  qed
qed

text \<open>
  The sample: eleven answers 403 with a reset time in the past, then 404. The function
  makes twelve requests for page 1 and returns. With the same answer for ever it does
  not return.
\<close>

theorem retries_not_bounded_by_page_cap_witness:
  "(1::nat) \<le> 10
   \<and> py_int (sample_env (retry_feed 11 ''0'') no_fault []) ''0'' = Inr 0
   \<and> retry_ready 0 sample_start
   \<and> (\<exists>s'. get_repo_events (sample_env (retry_feed 11 ''0'') no_fault []) ''a'' ''b'' 30
               sample_start = Some ([], s')
           \<and> api_calls s' = 12
           \<and> request_log s' = replicate 12 (''a'', ''b'', 1))
   \<and> get_repo_events (sample_env (forbidden_feed ''0'') no_fault []) ''a'' ''b'' 30
        sample_start = None"
proof -
  let ?e = "sample_env (retry_feed 11 ''0'') no_fault []"
  let ?f = "sample_env (forbidden_feed ''0'') no_fault []"
  let ?c = "clock sample_start - 30 * 86400000000"
  have page: "(1::nat) \<le> 10" by simp
  have int_e: "py_int ?e ''0'' = Inr 0" and int_f: "py_int ?f ''0'' = Inr 0"
    by (simp_all add: sample_defs)
  have ready: "retry_ready 0 sample_start"
    by (simp add: retry_ready_def unix_seconds_def sample_defs)
  have eleven: "\<forall>i<11. \<exists>b. feed ?e (length (request_log sample_start) + i) ''a'' ''b'' 1 =
                            Response 403 (Some ''0'') b"
    by (simp add: sample_defs retry_feed_def)
  have always: "\<forall>i. \<exists>b. feed ?f (length (request_log sample_start) + i) ''a'' ''b'' 1 =
                          Response 403 (Some ''0'') b"
    by (simp add: sample_defs forbidden_feed_def)
  from retries_not_bounded_by_page_cap [OF page int_e ready, of "''a''" "''b''" ?c "[]"] eleven
  obtain s' where again: "paging ?e ''a'' ''b'' ?c [] 1 sample_start = paging ?e ''a'' ''b'' ?c [] 1 s'"
    and calls: "api_calls s' = api_calls sample_start + 11"
    and log: "request_log s' = replicate 11 (''a'', ''b'', 1) @ request_log sample_start"
    by blast
  from log have "feed ?e (length (request_log s')) ''a'' ''b'' 1 = Response 404 None None"
    by (simp add: sample_defs retry_feed_def)
  then have "loop_body ?e ''a'' ''b'' ?c [] 1 s' =
             Break [] (s'\<lparr>request_log := (''a'', ''b'', 1) # request_log s',
                          api_calls := api_calls s' + 1\<rparr>)"
    by (simp add: loop_body_response)
  then have "paging ?e ''a'' ''b'' ?c [] 1 s' =
             Some (finish [] (s'\<lparr>request_log := (''a'', ''b'', 1) # request_log s',
                                  api_calls := api_calls s' + 1\<rparr>))"
    by (simp add: paging_turn)
  with again have "get_repo_events ?e ''a'' ''b'' 30 sample_start =
             Some ([], s'\<lparr>request_log := (''a'', ''b'', 1) # request_log s',
                            api_calls := api_calls s' + 1\<rparr>)"
    by (simp add: get_repo_events_def finish_def)
  moreover have "api_calls (s'\<lparr>request_log := (''a'', ''b'', 1) # request_log s',
                                api_calls := api_calls s' + 1\<rparr>) = 12"
    using calls by (simp add: sample_defs)
  moreover have "request_log (s'\<lparr>request_log := (''a'', ''b'', 1) # request_log s',
                                  api_calls := api_calls s' + 1\<rparr>) =
                 replicate 12 (''a'', ''b'', 1)"
  proof -
    have "replicate 12 (''a'', ''b'', 1::nat) = (''a'', ''b'', 1) # replicate 11 (''a'', ''b'', 1)"
      by (simp add: numeral_eq_Suc)
    then show ?thesis using log by (simp add: sample_defs)
  qed
  ultimately have returns: "\<exists>s'. get_repo_events ?e ''a'' ''b'' 30 sample_start = Some ([], s')
           \<and> api_calls s' = 12 \<and> request_log s' = replicate 12 (''a'', ''b'', 1)"
    by blast
  from retries_not_bounded_by_page_cap [OF page int_f ready, of "''a''" "''b''" ?c "[]"] always
  have "paging ?f ''a'' ''b'' ?c [] 1 sample_start = None"
    by blast
  then have never: "get_repo_events ?f ''a'' ''b'' 30 sample_start = None"
    by (simp add: get_repo_events_def)
  from page int_e ready returns never show ?thesis by blast
qed

section \<open>Stopping at the cutoff\<close>

lemma scan_page_in_window:
  "\<forall>ev \<in> set items. in_window e cutoff ev \<and> typed ev \<Longrightarrow>
   scan_page e cutoff items acc = Completed (acc @ filter relevant items)"
proof (induction items arbitrary: acc)
  case Nil
  then show ?case by simp
next
  case (Cons event rest)
  from Cons.prems have win: "in_window e cutoff event" and ty: "typed event"
    by simp_all
  from win obtain t where date: "event_date e event = Inr (Aware t)" and late: "cutoff \<le> t"
    by (auto simp: in_window_def split: sum.splits datetime.splits)
  from ty obtain ty' where tp: "subscript event ''type'' = Inr ty'"
    by (auto simp: typed_def split: sum.splits)
  from Cons.prems have "\<forall>ev \<in> set rest. in_window e cutoff ev \<and> typed ev"
    by simp
  from Cons.IH [OF this] date late tp show ?case
    by (simp add: try_bind_def relevant_def)
qed

lemma scan_page_before_cutoff:
  "\<forall>ev \<in> set pre. in_window e cutoff ev \<and> typed ev \<Longrightarrow> before_cutoff e cutoff old \<Longrightarrow>
   scan_page e cutoff (pre @ old # post) acc = Cutoff (acc @ filter relevant pre)"
proof (induction pre arbitrary: acc)
  case Nil
  from Nil.prems(2) obtain t where "event_date e old = Inr (Aware t)" and "t < cutoff"
    by (auto simp: before_cutoff_def split: sum.splits datetime.splits)
  then show ?case by (simp add: try_bind_def)
next
  case (Cons event rest)
  from Cons.prems(1) have win: "in_window e cutoff event" and ty: "typed event"
    by simp_all
  from win obtain t where date: "event_date e event = Inr (Aware t)" and late: "cutoff \<le> t"
    by (auto simp: in_window_def split: sum.splits datetime.splits)
  from ty obtain ty' where tp: "subscript event ''type'' = Inr ty'"
    by (auto simp: typed_def split: sum.splits)
  from Cons.prems(1) have "\<forall>ev \<in> set rest. in_window e cutoff ev \<and> typed ev"
    by simp
  from Cons.IH [OF this Cons.prems(2)] date late tp show ?case
    by (simp add: try_bind_def relevant_def)
qed

lemma loop_body_full_page:
  assumes "ok_page (feed e (length (request_log s)) own nam page) evs"
    and "evs \<noteq> []"
    and "\<forall>ev \<in> set evs. in_window e cutoff ev \<and> typed ev"
  shows "loop_body e own nam cutoff acc page s =
         Continue (acc @ filter relevant evs) (page + 1) (sleep 500000 (answered own nam page s))"
proof -
  from assms(1) obtain hdr
    where resp: "feed e (length (request_log s)) own nam page = Response 200 hdr (Some (JArr evs))"
    by (cases "feed e (length (request_log s)) own nam page") auto
  from assms(3) have "scan_page e cutoff evs acc = Completed (acc @ filter relevant evs)"
    by (rule scan_page_in_window)
  with assms(2) show ?thesis
    by (simp add: loop_body_response [OF resp] on_success_def answered_def)
qed

lemma loop_body_cutoff_page:
  assumes "ok_page (feed e (length (request_log s)) own nam page) (pre @ old # post)"
    and "\<forall>ev \<in> set pre. in_window e cutoff ev \<and> typed ev"
    and "before_cutoff e cutoff old"
  shows "loop_body e own nam cutoff acc page s =
         Return (acc @ filter relevant pre) (answered own nam page s)"
proof -
  from assms(1) obtain hdr
    where resp: "feed e (length (request_log s)) own nam page =
                 Response 200 hdr (Some (JArr (pre @ old # post)))"
    by (cases "feed e (length (request_log s)) own nam page") auto
  from assms(2,3)
  have "scan_page e cutoff (pre @ old # post) acc = Cutoff (acc @ filter relevant pre)"
    by (rule scan_page_before_cutoff)
  then show ?thesis
    by (simp add: loop_body_response [OF resp] on_success_def answered_def)
qed

lemma paging_to_cutoff:
  "page + length pages \<le> 10 \<Longrightarrow>
   \<forall>n. \<forall>i < length pages. ok_page (feed e n own nam (page + i)) (pages ! i) \<Longrightarrow>
   \<forall>n. ok_page (feed e n own nam (page + length pages)) (pre @ old # post) \<Longrightarrow>
   \<forall>evs \<in> set pages. evs \<noteq> [] \<Longrightarrow>
   \<forall>ev \<in> set (concat pages @ pre). in_window e cutoff ev \<and> typed ev \<Longrightarrow>
   before_cutoff e cutoff old \<Longrightarrow>
   \<exists>s'. paging e own nam cutoff acc page s =
           Some (acc @ filter relevant (concat pages @ pre), s')
       \<and> request_log s' =
           rev (map (\<lambda>p. (own, nam, p)) [page..<page + length pages + 1]) @ request_log s
       \<and> api_calls s' = api_calls s + length pages + 1"
proof (induction pages arbitrary: page acc s)
  case Nil
  from Nil.prems(3) have "ok_page (feed e (length (request_log s)) own nam page) (pre @ old # post)"
    by simp
  moreover from Nil.prems(5) have "\<forall>ev \<in> set pre. in_window e cutoff ev \<and> typed ev"
    by simp
  ultimately have "loop_body e own nam cutoff acc page s =
         Return (acc @ filter relevant pre) (answered own nam page s)"
    using Nil.prems(6) by (rule loop_body_cutoff_page)
  with Nil.prems(1) have "paging e own nam cutoff acc page s =
         Some (finish (acc @ filter relevant pre) (answered own nam page s))"
    by (simp add: paging_turn)
  then show ?case
    by (simp add: finish_def answered_def)
next
  case (Cons evs rest)
  let ?s1 = "sleep 500000 (answered own nam page s)"
  from Cons.prems(2) have "\<forall>n. ok_page (feed e n own nam (page + 0)) ((evs # rest) ! 0)"
    by blast
  then have "ok_page (feed e (length (request_log s)) own nam page) evs"
    by simp
  moreover from Cons.prems(4) have "evs \<noteq> []" by simp
  moreover from Cons.prems(5) have "\<forall>ev \<in> set evs. in_window e cutoff ev \<and> typed ev"
    by simp
  ultimately have "loop_body e own nam cutoff acc page s =
         Continue (acc @ filter relevant evs) (page + 1) ?s1"
    by (rule loop_body_full_page)
  moreover from Cons.prems(1) have "page \<le> 10" by simp
  ultimately have one: "paging e own nam cutoff acc page s =
         paging e own nam cutoff (acc @ filter relevant evs) (page + 1) ?s1"
    by (simp add: paging_turn)
  have p1: "page + 1 + length rest \<le> 10"
    using Cons.prems(1) by simp
  have p2: "\<forall>n. \<forall>i < length rest. ok_page (feed e n own nam (page + 1 + i)) (rest ! i)"
  proof (intro allI impI)
    fix n i
    assume "i < length rest"
    then have "Suc i < length (evs # rest)" by simp
    with Cons.prems(2) have "ok_page (feed e n own nam (page + Suc i)) ((evs # rest) ! Suc i)"
      by blast
    then show "ok_page (feed e n own nam (page + 1 + i)) (rest ! i)" by simp
  qed
  have p3: "\<forall>n. ok_page (feed e n own nam (page + 1 + length rest)) (pre @ old # post)"
    using Cons.prems(3) by simp
  have p4: "\<forall>evs \<in> set rest. evs \<noteq> []"
    using Cons.prems(4) by simp
  have p5: "\<forall>ev \<in> set (concat rest @ pre). in_window e cutoff ev \<and> typed ev"
    using Cons.prems(5) by simp
  from Cons.IH [OF p1 p2 p3 p4 p5 Cons.prems(6), of "acc @ filter relevant evs" ?s1]
  obtain s' where run: "paging e own nam cutoff (acc @ filter relevant evs) (page + 1) ?s1 =
           Some ((acc @ filter relevant evs) @ filter relevant (concat rest @ pre), s')"
    and log: "request_log s' =
           rev (map (\<lambda>p. (own, nam, p)) [page + 1..<page + 1 + length rest + 1]) @ request_log ?s1"
    and calls: "api_calls s' = api_calls ?s1 + length rest + 1"
    by blast
  have upt: "[page..<page + length (evs # rest) + 1] = page # [page + 1..<page + 1 + length rest + 1]"
  proof -
    have "page < page + length (evs # rest) + 1" by simp
    then have "[page..<page + length (evs # rest) + 1] =
               page # [Suc page..<page + length (evs # rest) + 1]"
      by (rule upt_conv_Cons)
    moreover have "Suc page = page + 1"
      and "page + length (evs # rest) + 1 = page + 1 + length rest + 1"
      by simp_all
    ultimately show ?thesis by (simp only:)
  qed
  have "paging e own nam cutoff acc page s =
           Some (acc @ filter relevant (concat (evs # rest) @ pre), s')"
    using one run by simp
  moreover have "request_log s' =
           rev (map (\<lambda>p. (own, nam, p)) [page..<page + length (evs # rest) + 1]) @ request_log s"
    unfolding upt using log by (simp add: sleep_def answered_def)
  moreover have "api_calls s' = api_calls s + length (evs # rest) + 1"
    using calls by (simp add: sleep_def answered_def)
  ultimately show ?case by blast
qed

text \<open>
  Claim C3, as the code has it. Let the event \<open>old\<close> lie on one of the first ten pages of
  the feed. Let every request for a page before that one be answered with status 200 and
  a list of events that is not empty, and every request for the page of \<open>old\<close> with
  status 200 and a list on which the events \<open>pre\<close> come first and \<open>old\<close> next. Let
  every event before \<open>old\<close> (those of the earlier pages, and \<open>pre\<close>) have a type and a
  creation time that \<^verbatim>\<open>fromisoformat\<close> reads as an instant with a time zone, at or
  after the cutoff, and let \<open>old\<close> have such a creation time before the cutoff. Then the
  cursor returns, in their order, those of the events before \<open>old\<close> whose type is in the
  allowed set (the others are dropped), and it has asked once for each page up to the
  one that holds \<open>old\<close> and for no page after it.
\<close>

theorem cutoff_returns_allowed_types_only:
  assumes "length earlier \<le> 9"
    and "\<forall>n. \<forall>i < length earlier. ok_page (feed e n own nam (1 + i)) (earlier ! i)"
    and "\<forall>n. ok_page (feed e n own nam (1 + length earlier)) (pre @ old # post)"
    and "\<forall>evs \<in> set earlier. evs \<noteq> []"
    and "\<forall>ev \<in> set (concat earlier @ pre).
           in_window e (clock s - days_back * 86400000000) ev \<and> typed ev"
    and "before_cutoff e (clock s - days_back * 86400000000) old"
  shows "\<exists>s'. get_repo_events e own nam days_back s =
                Some (filter relevant (concat earlier @ pre), s')
            \<and> request_log s' =
                rev (map (\<lambda>p. (own, nam, p)) [1..<length earlier + 2]) @ request_log s
            \<and> api_calls s' = api_calls s + length earlier + 1"
proof -
  from assms(1) have "1 + length earlier \<le> 10" by simp
  from paging_to_cutoff [OF this assms(2) assms(3) assms(4) assms(5) assms(6), of "[]" s]
  show ?thesis by (simp add: get_repo_events_def)
qed

lemmas window_defs = in_window_def before_cutoff_def typed_def relevant_def event_date_def
  try_bind_def replace_Z_def relevant_types_def

text \<open>
  The sample: page 1 holds a watch event and a push event of 1 March, page 2 a fork event
  of 20 February and then a watch event of 1 January. The watch event and the fork event
  are returned, after two requests.
\<close>

theorem cutoff_returns_allowed_types_only_witness:
  "\<exists>s'. get_repo_events
           (sample_env (two_pages [watch_new, push_new] [fork_new, watch_old]) no_fault [])
           ''a'' ''b'' 30 sample_start = Some ([watch_new, fork_new], s')
       \<and> request_log s' = [(''a'', ''b'', 2), (''a'', ''b'', 1)]
       \<and> api_calls s' = 2"
proof -
  let ?e = "sample_env (two_pages [watch_new, push_new] [fork_new, watch_old]) no_fault []"
  let ?c = "clock sample_start - 30 * 86400000000"
  have h1: "length [ [watch_new, push_new] ] \<le> 9" by simp
  have h2: "\<forall>n. \<forall>i < length [ [watch_new, push_new] ].
              ok_page (feed ?e n ''a'' ''b'' (1 + i)) ([ [watch_new, push_new] ] ! i)"
    by (simp add: sample_defs two_pages_def)
  have h3: "\<forall>n. ok_page (feed ?e n ''a'' ''b'' (1 + length [ [watch_new, push_new] ]))
                   ([fork_new] @ watch_old # [])"
    by (simp add: sample_defs two_pages_def)
  have h4: "\<forall>evs \<in> set [ [watch_new, push_new] ]. evs \<noteq> []" by simp
  have h5: "\<forall>ev \<in> set (concat [ [watch_new, push_new] ] @ [fork_new]).
              in_window ?e ?c ev \<and> typed ev"
    by (simp add: window_defs sample_defs sample_event_defs fork_new_def)
  have h6: "before_cutoff ?e ?c watch_old"
    by (simp add: window_defs sample_defs sample_event_defs)
  have kept: "filter relevant (concat [ [watch_new, push_new] ] @ [fork_new]) =
              [watch_new, fork_new]"
    by (simp add: window_defs sample_defs sample_event_defs fork_new_def)
  have pages: "rev (map (\<lambda>p. (''a'', ''b'', p)) [1..<length [ [watch_new, push_new] ] + 2])
                 @ request_log sample_start = [(''a'', ''b'', 2), (''a'', ''b'', 1::nat)]"
    by (simp add: sample_defs upt_rec)
  have calls: "api_calls sample_start + length [ [watch_new, push_new] ] + 1 = 2"
    by (simp add: sample_defs)
  from cutoff_returns_allowed_types_only [OF h1 h2 h3 h4 h5 h6]
  show ?thesis unfolding kept pages calls .
qed

text \<open>
  Claim C3 as stated fails for an event of another type: a push event of 1 March followed
  by an event of 1 January. The push event is the one event before the cutoff event, and
  the cursor returns the empty list.
\<close>

theorem other_type_counterexample:
  "in_window (sample_env (one_page [push_new, watch_old]) no_fault [])
     (clock sample_start - 30 * 86400000000) push_new
   \<and> typed push_new
   \<and> before_cutoff (sample_env (one_page [push_new, watch_old]) no_fault [])
       (clock sample_start - 30 * 86400000000) watch_old
   \<and> get_repo_events (sample_env (one_page [push_new, watch_old]) no_fault []) ''a'' ''b'' 30
       sample_start =
     Some ([], sample_start\<lparr>request_log := [(''a'', ''b'', 1)], api_calls := 1\<rparr>)
   \<and> [] \<noteq> [push_new]"
  by (simp add: paging.simps cursor_defs window_defs sample_defs sample_event_defs)

text \<open>
  Why no page before the one with the old event may be empty: \<^verbatim>\<open>if not page_events: break\<close>.
  At an empty page the loop ends and the cursor returns what it has; no later page is
  asked for, whatever it holds.
\<close>

lemma loop_body_empty_page:
  assumes "ok_page (feed e (length (request_log s)) own nam page) []"
  shows "loop_body e own nam cutoff acc page s = Break acc (answered own nam page s)"
proof -
  from assms obtain hdr
    where resp: "feed e (length (request_log s)) own nam page = Response 200 hdr (Some (JArr []))"
    by (cases "feed e (length (request_log s)) own nam page") auto
  show ?thesis
    by (simp add: loop_body_response [OF resp] on_success_def answered_def)
qed

lemma paging_to_empty_page:
  "page + length pages \<le> 10 \<Longrightarrow>
   \<forall>n. \<forall>i < length pages. ok_page (feed e n own nam (page + i)) (pages ! i) \<Longrightarrow>
   \<forall>n. ok_page (feed e n own nam (page + length pages)) [] \<Longrightarrow>
   \<forall>evs \<in> set pages. evs \<noteq> [] \<Longrightarrow>
   \<forall>ev \<in> set (concat pages). in_window e cutoff ev \<and> typed ev \<Longrightarrow>
   \<exists>s'. paging e own nam cutoff acc page s = Some (acc @ filter relevant (concat pages), s')
       \<and> request_log s' =
           rev (map (\<lambda>p. (own, nam, p)) [page..<page + length pages + 1]) @ request_log s"
proof (induction pages arbitrary: page acc s)
  case Nil
  from Nil.prems(3) have "ok_page (feed e (length (request_log s)) own nam page) []"
    by simp
  then have "loop_body e own nam cutoff acc page s = Break acc (answered own nam page s)"
    by (rule loop_body_empty_page)
  with Nil.prems(1) have "paging e own nam cutoff acc page s =
         Some (finish acc (answered own nam page s))"
    by (simp add: paging_turn)
  then show ?case
    by (simp add: finish_def answered_def)
next
  case (Cons evs rest)
  let ?s1 = "sleep 500000 (answered own nam page s)"
  from Cons.prems(2) have "\<forall>n. ok_page (feed e n own nam (page + 0)) ((evs # rest) ! 0)"
    by blast
  then have "ok_page (feed e (length (request_log s)) own nam page) evs"
    by simp
  moreover from Cons.prems(4) have "evs \<noteq> []" by simp
  moreover from Cons.prems(5) have "\<forall>ev \<in> set evs. in_window e cutoff ev \<and> typed ev"
    by simp
  ultimately have "loop_body e own nam cutoff acc page s =
         Continue (acc @ filter relevant evs) (page + 1) ?s1"
    by (rule loop_body_full_page)
  moreover from Cons.prems(1) have "page \<le> 10" by simp
  ultimately have one: "paging e own nam cutoff acc page s =
         paging e own nam cutoff (acc @ filter relevant evs) (page + 1) ?s1"
    by (simp add: paging_turn)
  have p1: "page + 1 + length rest \<le> 10"
    using Cons.prems(1) by simp
  have p2: "\<forall>n. \<forall>i < length rest. ok_page (feed e n own nam (page + 1 + i)) (rest ! i)"
  proof (intro allI impI)
    fix n i
    assume "i < length rest"
    then have "Suc i < length (evs # rest)" by simp
    with Cons.prems(2) have "ok_page (feed e n own nam (page + Suc i)) ((evs # rest) ! Suc i)"
      by blast
    then show "ok_page (feed e n own nam (page + 1 + i)) (rest ! i)" by simp
  qed
  have p3: "\<forall>n. ok_page (feed e n own nam (page + 1 + length rest)) []"
    using Cons.prems(3) by simp
  have p4: "\<forall>evs \<in> set rest. evs \<noteq> []"
    using Cons.prems(4) by simp
  have p5: "\<forall>ev \<in> set (concat rest). in_window e cutoff ev \<and> typed ev"
    using Cons.prems(5) by simp
  from Cons.IH [OF p1 p2 p3 p4 p5, of "acc @ filter relevant evs" ?s1]
  obtain s' where run: "paging e own nam cutoff (acc @ filter relevant evs) (page + 1) ?s1 =
           Some ((acc @ filter relevant evs) @ filter relevant (concat rest), s')"
    and log: "request_log s' =
           rev (map (\<lambda>p. (own, nam, p)) [page + 1..<page + 1 + length rest + 1]) @ request_log ?s1"
    by blast
  have upt: "[page..<page + length (evs # rest) + 1] = page # [page + 1..<page + 1 + length rest + 1]"
  proof -
    have "page < page + length (evs # rest) + 1" by simp
    then have "[page..<page + length (evs # rest) + 1] =
               page # [Suc page..<page + length (evs # rest) + 1]"
      by (rule upt_conv_Cons)
    moreover have "Suc page = page + 1"
      and "page + length (evs # rest) + 1 = page + 1 + length rest + 1"
      by simp_all
    ultimately show ?thesis by (simp only:)
  qed
  have "paging e own nam cutoff acc page s =
           Some (acc @ filter relevant (concat (evs # rest)), s')"
    using one run by simp
  moreover have "request_log s' =
           rev (map (\<lambda>p. (own, nam, p)) [page..<page + length (evs # rest) + 1]) @ request_log s"
    unfolding upt using log by (simp add: sleep_def answered_def)
  ultimately show ?case by blast
qed

lemma empty_page_ends_paging:
  assumes "length earlier \<le> 9"
    and "\<forall>n. \<forall>i < length earlier. ok_page (feed e n own nam (1 + i)) (earlier ! i)"
    and "\<forall>n. ok_page (feed e n own nam (1 + length earlier)) []"
    and "\<forall>evs \<in> set earlier. evs \<noteq> []"
    and "\<forall>ev \<in> set (concat earlier).
           in_window e (clock s - days_back * 86400000000) ev \<and> typed ev"
  shows "\<exists>s'. get_repo_events e own nam days_back s = Some (filter relevant (concat earlier), s')
            \<and> request_log s' =
                rev (map (\<lambda>p. (own, nam, p)) [1..<length earlier + 2]) @ request_log s"
proof -
  from assms(1) have "1 + length earlier \<le> 10" by simp
  from paging_to_empty_page [OF this assms(2) assms(3) assms(4) assms(5), of "[]" s]
  show ?thesis by (simp add: get_repo_events_def)
qed

text \<open>
  The sample: page 1 holds a watch event of 1 March, page 2 is empty, page 3 holds a fork
  event of 20 February and then a watch event of 1 January. The cursor stops at page 2
  and returns the watch event only: the fork event, which is before the old event in the
  feed, after the cutoff and of an allowed type, is not returned.
\<close>

lemma gap_feed_sample:
  "\<exists>s'. get_repo_events (sample_env gap_feed no_fault []) ''a'' ''b'' 30 sample_start =
           Some ([watch_new], s')
       \<and> request_log s' = [(''a'', ''b'', 2), (''a'', ''b'', 1)]"
  by (simp add: paging.simps cursor_defs window_defs sample_defs sample_event_defs gap_feed_def)

section \<open>The cap on pages\<close>




lemma on_forbidden_log:
  "request_log (turn_state (on_forbidden e resp events page s)) = request_log s"
  by (simp add: on_forbidden_def count_error_def sleep_def Let_def
      split: option.splits sum.splits)

lemma on_success_log:
  "request_log (turn_state (on_success e cutoff resp events page s)) = request_log s"
  by (simp add: on_success_def count_error_def sleep_def
      split: option.splits sum.splits scan.splits)

lemma loop_body_log:
  "request_log (turn_state (loop_body e own nam cutoff events page s)) =
   (own, nam, page) # request_log s"
proof (cases "feed e (length (request_log s)) own nam page")
  case (Raises err)
  then show ?thesis by (simp add: loop_body_raises count_error_def)
next
  case (Response code hdr b)
  then show ?thesis
    by (simp add: loop_body_response [OF Response] Let_def on_forbidden_log on_success_log)
qed
















section \<open>The exit status\<close>

lemma init_raises_iff: "(\<exists>err. init e = Inl err) \<longleftrightarrow> config_missing e \<or> connect_fails e"
  by (auto simp: init_def config_missing_def connect_fails_def split: option.splits)

lemma init_db_ops: "init e = Inr s0 \<Longrightarrow> db_ops s0 = 0"
  by (auto simp: init_def split: if_splits option.splits)

lemma main_after_init:
  "init e = Inr s0 \<Longrightarrow>
   main e = (case run_backfill e (workspace_arg e) s0 of
               None \<Rightarrow> None
             | Some (Some err, s1) \<Rightarrow> Some (Inr 1)
             | Some (None, s1) \<Rightarrow> Some (Inr 0))"
  by (simp add: main_def workspace_arg_def Let_def)

lemma main_init_raises: "init e = Inl err \<Longrightarrow> main e = Some (Inl err)"
  by (simp add: main_def Let_def)

lemma lookup_raises:
  "db_ops s0 = 0 \<Longrightarrow>
   (\<exists>err s1. get_workspace_repositories e w s0 = (Inl err, s1)) \<longleftrightarrow> lookup_fails e"
  by (auto simp: get_workspace_repositories_def db_call_def lookup_fails_def
      split: option.splits)

text \<open>
  Claim C7, as the code has it. When the process ends, its status is 0 or 1. It is 1
  exactly when an exception reaches the top level: the configuration is missing or is
  the placeholder, the connection to the database fails, the directory query raises, or
  the count query at the end of the run raises. In every other case, and so when the
  directory query returns no repository, it is 0.
\<close>

theorem exit_status_causes:
  assumes "main e = Some r"
  shows "(exit_code r = 0 \<or> exit_code r = 1)
       \<and> (exit_code r = 1 \<longleftrightarrow>
            config_missing e \<or> connect_fails e \<or> lookup_fails e \<or> final_count_fails e)
       \<and> ((\<exists>s0 s1. init e = Inr s0
              \<and> get_workspace_repositories e (workspace_arg e) s0 = (Inr [], s1)) \<longrightarrow>
            exit_code r = 0)"
proof (cases "init e")
  case (Inl err)
  then have "\<exists>err. init e = Inl err" by blast
  then have "config_missing e \<or> connect_fails e" by (simp add: init_raises_iff)
  moreover from Inl assms have "r = Inl err" by (simp add: main_init_raises)
  ultimately show ?thesis using Inl by (auto simp: exit_code_def)
next
  case (Inr s0)
  then have "\<not> (\<exists>err. init e = Inl err)" by simp
  then have cfg: "\<not> config_missing e" "\<not> connect_fails e"
    by (simp_all add: init_raises_iff)
  from Inr have ops: "db_ops s0 = 0" by (rule init_db_ops)
  obtain res s1 where look: "get_workspace_repositories e (workspace_arg e) s0 = (res, s1)"
    by (cases "get_workspace_repositories e (workspace_arg e) s0")
  show ?thesis
  proof (cases res)
    case (Inl err)
    with look have "\<exists>err s1. get_workspace_repositories e (workspace_arg e) s0 = (Inl err, s1)"
      by blast
    with ops have lf: "lookup_fails e" by (simp add: lookup_raises)
    from Inl look Inr assms have "r = Inr 1"
      by (simp add: main_after_init run_backfill_def)
    with lf Inl look Inr show ?thesis by (simp add: exit_code_def)
  next
    case (Inr repositories)
    with look have "\<not> (\<exists>err s1. get_workspace_repositories e (workspace_arg e) s0 = (Inl err, s1))"
      by simp
    with ops have lf: "\<not> lookup_fails e" by (simp add: lookup_raises)
    show ?thesis
    proof (cases "repositories = []")
      case True
      with Inr look \<open>init e = Inr s0\<close> assms have "r = Inr 0"
        by (simp add: main_after_init run_backfill_def)
      moreover from True Inr look \<open>init e = Inr s0\<close> have "\<not> final_count_fails e"
        by (simp add: final_count_fails_def)
      ultimately show ?thesis using cfg lf by (simp add: exit_code_def)
    next
      case False
      show ?thesis
      proof (cases "repository_loop e repositories s1")
        case None
        with False Inr look \<open>init e = Inr s0\<close> assms show ?thesis
          by (simp add: main_after_init run_backfill_def)
      next
        case (Some s2)
        show ?thesis
        proof (cases "db_fault e (db_ops s2)")
          case None
          with Some False Inr look \<open>init e = Inr s0\<close> assms have "r = Inr 0"
            by (simp add: main_after_init run_backfill_def db_call_def)
          moreover from None Some False Inr look \<open>init e = Inr s0\<close>
          have "\<not> final_count_fails e"
            by (simp add: final_count_fails_def)
          ultimately show ?thesis
            using cfg lf False Inr look \<open>init e = Inr s0\<close> by (simp add: exit_code_def)
        next
          case (Some err)
          with \<open>repository_loop e repositories s1 = Some s2\<close> False Inr look
            \<open>init e = Inr s0\<close> assms
          have "r = Inr 1"
            by (simp add: main_after_init run_backfill_def db_call_def)
          moreover from Some \<open>repository_loop e repositories s1 = Some s2\<close> False Inr look
            \<open>init e = Inr s0\<close>
          have "final_count_fails e"
            by (simp add: final_count_fails_def)
          ultimately show ?thesis
            using False Inr look \<open>init e = Inr s0\<close> by (simp add: exit_code_def)
        qed
      qed
    qed
  qed
qed

lemmas orchestrator_defs = main_def init_def run_backfill_def get_workspace_repositories_def
  backfill_repository_def backfill_days_def insert_turn_def commit_def rollback_def
  unset_def placeholder_def exit_code_def

text \<open>
  The sample: one repository with one recent watch event, and a database that never
  fails. The process ends with status 0.
\<close>

theorem exit_status_causes_witness:
  "main (sample_env (one_page [watch_new]) no_fault [sample_repository]) = Some (Inr 0)
   \<and> exit_code (Inr 0) = 0
   \<and> \<not> (config_missing (sample_env (one_page [watch_new]) no_fault [sample_repository])
        \<or> connect_fails (sample_env (one_page [watch_new]) no_fault [sample_repository])
        \<or> lookup_fails (sample_env (one_page [watch_new]) no_fault [sample_repository])
        \<or> final_count_fails (sample_env (one_page [watch_new]) no_fault [sample_repository]))"
proof -
  let ?e = "sample_env (one_page [watch_new]) no_fault [sample_repository]"
  have run: "main ?e = Some (Inr 0)"
    by (simp add: orchestrator_defs paging.simps cursor_defs writer_defs sample_defs
        sample_event_defs sample_repository_def)
  from exit_status_causes [OF run] have "exit_code (Inr 0) = 1 \<longleftrightarrow>
            config_missing ?e \<or> connect_fails ?e \<or> lookup_fails ?e \<or> final_count_fails ?e"
    by blast
  moreover have "exit_code (Inr 0) = 0" by (simp add: exit_code_def)
  ultimately show ?thesis using run by simp
qed

text \<open>
  Claim C7 as stated fails when the count query at the end raises: the configuration is
  complete, the connection and the directory query succeed, the one event is written and
  committed, and the process ends with status 1.
\<close>

theorem final_count_counterexample:
  "\<not> config_missing (sample_env (one_page [watch_new]) (fault_at 3) [sample_repository])
   \<and> \<not> connect_fails (sample_env (one_page [watch_new]) (fault_at 3) [sample_repository])
   \<and> \<not> lookup_fails (sample_env (one_page [watch_new]) (fault_at 3) [sample_repository])
   \<and> main (sample_env (one_page [watch_new]) (fault_at 3) [sample_repository]) = Some (Inr 1)
   \<and> exit_code (Inr 1) = 1"
  by (simp add: orchestrator_defs paging.simps cursor_defs writer_defs feed_def per_page_def sample_env_def
      sample_start_def sample_event_def sample_int_def sample_fromisoformat_def
      sample_getenv_def one_page_def sample_event_defs sample_repository_def fault_at_def
      config_missing_def connect_fails_def lookup_fails_def)

section \<open>An exception that is not counted\<close>

text \<open>
  Claim C6 at a run in which \<^verbatim>\<open>commit\<close> raises. One repository, one recent watch event;
  the third call of the database (after the directory query and the \<^verbatim>\<open>INSERT\<close>) is the
  \<^verbatim>\<open>commit\<close>, and it fails. The handler in \<^verbatim>\<open>backfill_repository\<close> rolls back and the
  run goes on to its end, but the exception is not counted: \<^verbatim>\<open>errors\<close> is 0 at the end,
  while \<^verbatim>\<open>events_inserted\<close> is 1 with no row in the table.
\<close>

theorem commit_exception_not_counted:
  "db_fault (sample_env (one_page [watch_new]) (fault_at 2) [sample_repository]) 2 =
     Some DatabaseError
   \<and> (\<exists>s'. run_backfill (sample_env (one_page [watch_new]) (fault_at 2) [sample_repository])
              None sample_start = Some (None, s')
          \<and> errors s' = 0 \<and> events_inserted s' = 1 \<and> repos_processed s' = 1
          \<and> committed s' = [] \<and> db_ops s' = 5)"
  by (simp add: orchestrator_defs paging.simps cursor_defs writer_defs feed_def per_page_def sample_env_def
      sample_start_def sample_event_def sample_int_def sample_fromisoformat_def
      sample_getenv_def one_page_def sample_event_defs sample_repository_def fault_at_def)

section \<open>One repository does not stop the others\<close>

lemma same_columns_refl [simp]: "same_columns r r"
  by (simp add: same_columns_def)

lemma same_columns_trans: "same_columns a b \<Longrightarrow> same_columns b c \<Longrightarrow> same_columns a c"
  by (simp add: same_columns_def)

lemma kept_refl [simp]: "kept rows rows"
  by (simp add: kept_def list_all2_refl)

lemma kept_trans:
  assumes "kept a b" and "kept b c"
  shows "kept a c"
proof -
  from assms have len: "length a \<le> length b" "length b \<le> length c"
    by (simp_all add: kept_def)
  from assms(2) have "list_all2 same_columns b (take (length b) c)"
    by (simp add: kept_def)
  then have "list_all2 same_columns (take (length a) b) (take (length a) (take (length b) c))"
    by (rule list_all2_takeI)
  with len have bc: "list_all2 same_columns (take (length a) b) (take (length a) c)"
    by (simp add: min_def)
  from assms(1) have ab: "list_all2 same_columns a (take (length a) b)"
    by (simp add: kept_def)
  have "list_all2 same_columns a (take (length a) c)"
    using same_columns_trans ab bc by (rule list_all2_trans)
  with len show ?thesis by (simp add: kept_def)
qed

lemma kept_upsert: "kept rows (upsert e rows new now)"
proof (cases "row_key e new \<in> row_key e ` set rows")
  case True
  have "list_all2 same_columns rows
          (map (\<lambda>r. if row_key e r = row_key e new then on_conflict_update now r else r) rows)"
    by (simp add: list_all2_map2 list_all2_refl same_columns_def on_conflict_update_def)
  with True show ?thesis by (simp add: kept_def upsert_conflict_map)
next
  case False
  then show ?thesis by (simp add: kept_def upsert_def list_all2_refl)
qed

lemma progress_refl [simp]: "progress s s"
  by (simp add: progress_def)

lemma progress_trans: "progress a b \<Longrightarrow> progress b c \<Longrightarrow> progress a c"
  using kept_trans by (auto simp: progress_def split: if_splits)

lemma progress_count_error: "progress s (count_error s)"
  by (simp add: progress_def count_error_def)

lemma progress_execute: "progress s (snd (execute_upsert e new s))"
proof -
  have "kept (committed s) (working s) \<Longrightarrow>
        kept (committed s) (upsert e (working s) new (db_now e (db_ops s)))"
    using kept_upsert by (rule kept_trans [rotated])
  then show ?thesis
    by (simp add: progress_def execute_upsert_def db_call_def split: option.splits)
qed

lemma progress_commit: "progress s (snd (commit e s))"
  by (simp add: progress_def commit_def db_call_def split: option.splits)

lemma progress_rollback: "progress s (snd (rollback e s))"
  by (simp add: progress_def rollback_def db_call_def)

lemma progress_insert_error: "progress s (snd (insert_error event s))"
  by (simp add: insert_error_def progress_count_error split: sum.splits)

lemma progress_insert_event: "progress s (snd (insert_event e event s))"
proof (cases "insert_event_row e s event")
  case (Inl err)
  then show ?thesis by (simp add: insert_event_def progress_insert_error)
next
  case (Inr new)
  obtain r s1 where ex: "execute_upsert e new s = (r, s1)"
    by (cases "execute_upsert e new s")
  then have p: "progress s s1"
    using progress_execute [of s e new] by simp
  have "progress s1 (snd (insert_error event s1))" by (rule progress_insert_error)
  with p have "progress s (snd (insert_error event s1))" by (rule progress_trans)
  moreover have "progress s1 (s1\<lparr>events_inserted := events_inserted s1 + 1\<rparr>)"
    by (simp add: progress_def)
  with p have "progress s (s1\<lparr>events_inserted := events_inserted s1 + 1\<rparr>)"
    by (rule progress_trans)
  ultimately show ?thesis
    using Inr ex by (cases r) (simp_all add: insert_event_def)
qed

lemma progress_insert_turn: "progress s (snd (insert_turn e event s))"
proof -
  obtain ok s1 where ie: "insert_event e event s = (ok, s1)"
    by (cases "insert_event e event s")
  then have p1: "progress s s1"
    using progress_insert_event [of s e event] by simp
  obtain c s2 where co: "commit e s1 = (c, s2)"
    by (cases "commit e s1")
  then have "progress s1 s2"
    using progress_commit [of s1 e] by simp
  with p1 have p2: "progress s s2" by (rule progress_trans)
  obtain b s3 where rb: "rollback e s1 = (b, s3)"
    by (cases "rollback e s1")
  then have "progress s1 s3"
    using progress_rollback [of s1 e] by simp
  with p1 have p3: "progress s s3" by (rule progress_trans)
  have p4: "progress s (snd (rollback e s2))"
    using p2 progress_rollback by (rule progress_trans)
  have p5: "progress s (snd (rollback e s3))"
    using p3 progress_rollback by (rule progress_trans)
  show ?thesis
    using ie co rb p2 p3 p4 p5
    by (cases ok; cases c; cases b) (auto simp: insert_turn_def split: bool.splits)
qed

lemma progress_insert_all: "progress s (snd (insert_all e events s))"
proof (induction events arbitrary: s)
  case Nil
  then show ?case by simp
next
  case (Cons event rest)
  obtain r s1 where t: "insert_turn e event s = (r, s1)"
    by (cases "insert_turn e event s")
  then have p: "progress s s1"
    using progress_insert_turn [of s e event] by simp
  from p Cons.IH [of s1] have "progress s (snd (insert_all e rest s1))"
    by (rule progress_trans)
  with t p show ?case
    by (cases r) simp_all
qed

lemma loop_body_errors: "errors s \<le> errors (turn_state (loop_body e own nam cutoff events page s))"
proof (cases "feed e (length (request_log s)) own nam page")
  case (Raises err)
  then show ?thesis by (simp add: loop_body_raises count_error_def)
next
  case (Response code hdr b)
  let ?s2 = "s\<lparr>request_log := (own, nam, page) # request_log s, api_calls := api_calls s + 1\<rparr>"
  have "\<And>resp. errors ?s2 \<le> errors (turn_state (on_forbidden e resp events page ?s2))"
    by (simp add: on_forbidden_def count_error_def sleep_def Let_def
        split: option.splits sum.splits)
  then have f: "\<And>resp. errors s \<le> errors (turn_state (on_forbidden e resp events page ?s2))"
    by simp
  have "\<And>resp. errors ?s2 \<le> errors (turn_state (on_success e cutoff resp events page ?s2))"
    by (simp add: on_success_def count_error_def sleep_def
        split: option.splits sum.splits scan.splits)
  then have g: "\<And>resp. errors s \<le> errors (turn_state (on_success e cutoff resp events page ?s2))"
    by simp
  from f g show ?thesis
    by (simp add: loop_body_response [OF Response] Let_def)
qed

lemma paging_trace:
  assumes "paging e own nam cutoff acc page s = Some r"
  shows "(\<exists>new. request_log (snd r) = new @ request_log s)
       \<and> (page \<le> 10 \<longrightarrow> (\<exists>new. request_log (snd r) = new @ (own, nam, page) # request_log s))
       \<and> errors s \<le> errors (snd r)"
  using assms
proof (induction acc page s r rule: paging_induct)
  case (beyond events page s)
  then show ?case by (simp add: finish_def)
next
  case (continue events page s events' page' s' r)
  have log: "request_log s' = (own, nam, page) # request_log s"
    using loop_body_log [of e own nam cutoff events page s] continue.hyps(2) by simp
  have err: "errors s \<le> errors s'"
    using loop_body_errors [of s e own nam cutoff events page] continue.hyps(2) by simp
  from continue.IH obtain new where "request_log (snd r) = new @ request_log s'"
    by blast
  with log have "request_log (snd r) = (new @ [(own, nam, page)]) @ request_log s"
    and "request_log (snd r) = new @ (own, nam, page) # request_log s"
    by simp_all
  moreover from continue.IH err have "errors s \<le> errors (snd r)" by simp
  ultimately show ?case by blast
next
  case (break events page s events' s')
  have log: "request_log s' = (own, nam, page) # request_log s"
    using loop_body_log [of e own nam cutoff events page s] break.hyps(2) by simp
  have err: "errors s \<le> errors s'"
    using loop_body_errors [of s e own nam cutoff events page] break.hyps(2) by simp
  from log have "request_log (snd (finish events' s')) = [(own, nam, page)] @ request_log s"
    and "request_log (snd (finish events' s')) = [] @ (own, nam, page) # request_log s"
    by (simp_all add: finish_def)
  moreover from err have "errors s \<le> errors (snd (finish events' s'))"
    by (simp add: finish_def)
  ultimately show ?case by blast
next
  case (return events page s events' s')
  have log: "request_log s' = (own, nam, page) # request_log s"
    using loop_body_log [of e own nam cutoff events page s] return.hyps(2) by simp
  have err: "errors s \<le> errors s'"
    using loop_body_errors [of s e own nam cutoff events page] return.hyps(2) by simp
  from log have "request_log (snd (finish events' s')) = [(own, nam, page)] @ request_log s"
    and "request_log (snd (finish events' s')) = [] @ (own, nam, page) # request_log s"
    by (simp_all add: finish_def)
  moreover from err have "errors s \<le> errors (snd (finish events' s'))"
    by (simp add: finish_def)
  ultimately show ?case by blast
qed

lemma backfill_repository_trace:
  assumes "backfill_repository e own nam ws s = Some (x, s')"
  shows "(\<exists>new. request_log s' = new @ (own, nam, 1) # request_log s)
       \<and> errors s \<le> errors s'
       \<and> (kept (committed s) (working s) \<longrightarrow>
            kept (committed s') (working s') \<and> kept (committed s) (committed s'))"
proof -
  from assms obtain events s1
    where cur: "get_repo_events e own nam backfill_days s = Some (events, s1)"
    by (auto simp: backfill_repository_def split: option.splits)
  then have run: "paging e own nam (clock s - backfill_days * 86400000000) [] 1 s =
                  Some (events, s1)"
    by (simp add: get_repo_events_def)
  from paging_trace [OF run]
  obtain new where log1: "request_log s1 = new @ (own, nam, 1) # request_log s"
    and err1: "errors s \<le> errors s1"
    by auto
  from cur have "cursor_frame s s1" by (rule get_repo_events_frame)
  then have store1: "committed s1 = committed s" "working s1 = working s"
    by (simp_all add: cursor_frame_def)
  have p: "progress s1 (snd (insert_all e events s1))"
    by (rule progress_insert_all)
  define s2 where "s2 = snd (insert_all e events s1)"
  from assms cur have "s' = s1 \<or> s' = s2 \<or> s' = s2\<lparr>repos_processed := repos_processed s2 + 1\<rparr>"
    by (auto simp: backfill_repository_def s2_def split: if_splits prod.splits option.splits)
  moreover have "progress s1 s1" by simp
  moreover from p have "progress s1 s2" by (simp add: s2_def)
  moreover from p have "progress s1 (s2\<lparr>repos_processed := repos_processed s2 + 1\<rparr>)"
    by (simp add: s2_def progress_def)
  ultimately have "progress s1 s'" by auto
  with log1 err1 store1 show ?thesis
    by (auto simp: progress_def split: if_splits)
qed

lemma repository_loop_trace:
  "repository_loop e repos s = Some s' \<Longrightarrow>
   (\<exists>new. request_log s' = new @ request_log s
         \<and> subseq (rev (map (\<lambda>r. (owner r, name r, 1)) repos)) new)
   \<and> errors s \<le> errors s'
   \<and> (kept (committed s) (working s) \<longrightarrow>
        kept (committed s') (working s') \<and> kept (committed s) (committed s'))"
proof (induction repos arbitrary: s)
  case Nil
  then show ?case by simp
next
  case (Cons repo rest)
  from Cons.prems obtain x s1
    where one: "backfill_repository e (owner repo) (name repo) (workspace repo) s = Some (x, s1)"
    by (auto split: option.splits)
  define s2 where "s2 = (case x of
                           None \<Rightarrow> if rest \<noteq> [] then sleep 2000000 s1 else s1
                         | Some err \<Rightarrow> count_error s1)"
  from Cons.prems one have rest: "repository_loop e rest s2 = Some s'"
    by (cases x) (simp_all add: s2_def)
  have same: "request_log s2 = request_log s1" "errors s1 \<le> errors s2"
    "committed s2 = committed s1" "working s2 = working s1"
    by (cases x; simp add: s2_def sleep_def count_error_def)+
  from backfill_repository_trace [OF one]
  obtain n1 where log1: "request_log s1 = n1 @ (owner repo, name repo, 1) # request_log s"
    and err1: "errors s \<le> errors s1"
    and store1: "kept (committed s) (working s) \<longrightarrow>
                   kept (committed s1) (working s1) \<and> kept (committed s) (committed s1)"
    by blast
  from Cons.IH [OF rest]
  obtain n2 where log2: "request_log s' = n2 @ request_log s2"
    and sub2: "subseq (rev (map (\<lambda>r. (owner r, name r, 1)) rest)) n2"
    and err2: "errors s2 \<le> errors s'"
    and store2: "kept (committed s2) (working s2) \<longrightarrow>
                   kept (committed s') (working s') \<and> kept (committed s2) (committed s')"
    by blast
  have "request_log s' = (n2 @ n1 @ [(owner repo, name repo, 1)]) @ request_log s"
    using log1 log2 same(1) by simp
  moreover have "subseq (rev (map (\<lambda>r. (owner r, name r, 1)) (repo # rest)))
                   (n2 @ n1 @ [(owner repo, name repo, 1)])"
  proof -
    have "subseq [(owner repo, name repo, 1::nat)] (n1 @ [(owner repo, name repo, 1)])"
      by (rule subseq_drop_many) simp
    with sub2 have "subseq (rev (map (\<lambda>r. (owner r, name r, 1)) rest) @ [(owner repo, name repo, 1)])
                      (n2 @ n1 @ [(owner repo, name repo, 1)])"
      by (rule list_emb_append_mono)
    then show ?thesis by simp
  qed
  moreover have "errors s \<le> errors s'"
    using err1 same(2) err2 by simp
  moreover have "kept (committed s) (working s) \<longrightarrow>
        kept (committed s') (working s') \<and> kept (committed s) (committed s')"
    using store1 store2 same(3,4) kept_trans by auto
  ultimately show ?case by blast
qed

text \<open>
  The part of claim C6 that holds on every run. When the loop over the repositories
  ends, a first page has been requested for every repository, in the order of the
  directory, whatever was raised on the way; the rows committed before the loop are
  still in the table, changed at most in \<^verbatim>\<open>processed_at\<close> and \<^verbatim>\<open>processing_notes\<close>; and
  the error counter has not gone down.
\<close>

theorem repositories_isolated:
  assumes "repository_loop e repos s = Some s'"
    and "working s = committed s"
  shows "(\<exists>new. request_log s' = new @ request_log s
               \<and> subseq (rev (map (\<lambda>r. (owner r, name r, 1)) repos)) new)
       \<and> kept (committed s) (committed s')
       \<and> errors s \<le> errors s'"
  using repository_loop_trace [OF assms(1)] assms(2) by simp

text \<open>
  Exceptions that are counted: one raised by the request of a page, by the building of
  the row (a malformed event that is a dictionary), by the \<^verbatim>\<open>INSERT\<close>, and one that
  leaves \<^verbatim>\<open>backfill_repository\<close>.
\<close>

lemma counted_exceptions:
  "feed e (length (request_log s)) own nam page = Raises err \<Longrightarrow>
     errors (turn_state (loop_body e own nam cutoff events page s)) = errors s + 1"
  "insert_event_row e s event = Inl err \<Longrightarrow> dict_get event ''id'' = Inr shown \<Longrightarrow>
     insert_event e event s = (Inr False, s\<lparr>errors := errors s + 1\<rparr>)"
  "insert_event_row e s event = Inr new \<Longrightarrow> db_fault e (db_ops s) = Some err \<Longrightarrow>
   dict_get event ''id'' = Inr shown \<Longrightarrow>
     insert_event e event s =
       (Inr False, s\<lparr>db_ops := db_ops s + 1, errors := errors s + 1\<rparr>)"
  "backfill_repository e (owner repo) (name repo) (workspace repo) s = Some (Some err, s1) \<Longrightarrow>
     repository_loop e (repo # rest) s = repository_loop e rest (s1\<lparr>errors := errors s1 + 1\<rparr>)"
  by (simp_all add: loop_body_raises count_error_def insert_event_def insert_error_def
      execute_upsert_def db_call_def)

section \<open>Writing an event twice\<close>

text \<open>A successful \<^verbatim>\<open>insert_event\<close> is one run of the statement on the transaction's table.\<close>

lemma insert_event_is_upsert:
  assumes "insert_event e event s = (Inr True, s')"
  shows "\<exists>new. insert_event_row e s event = Inr new
             \<and> working s' = upsert e (working s) new (db_now e (db_ops s))
             \<and> events_inserted s' = events_inserted s + 1 \<and> errors s' = errors s"
  using assms
  by (auto simp: insert_event_def insert_error_def execute_upsert_def db_call_def
      count_error_def split: sum.splits option.splits)

text \<open>
  After a first write of a row, its key is in the table, so a second write of the same
  row adds nothing: the table has the length it had after the first write.
\<close>

lemma key_present_after_upsert: "row_key e new \<in> row_key e ` set (upsert e rows new now)"
proof (cases "row_key e new \<in> row_key e ` set rows")
  case True
  then obtain r where "r \<in> set rows" and "row_key e r = row_key e new" by auto
  then have "on_conflict_update now r \<in> set (upsert e rows new now)"
    using True by (force simp: upsert_conflict_map)
  moreover have "row_key e (on_conflict_update now r) = row_key e new"
    using \<open>row_key e r = row_key e new\<close> by simp
  ultimately show ?thesis by (metis imageI)
next
  case False
  then show ?thesis by (simp add: upsert_def)
qed

lemma upsert_twice_length:
  "length (upsert e (upsert e rows new t1) new t2) = length (upsert e rows new t1)"
  using key_present_after_upsert [of e new rows t1] by (simp add: upsert_conflict_map)

end
